theory Spec2Isabelle
  imports Main "HOL-Library.Word"
begin

section \<open>Go values\<close>

text \<open>
  A Go string and a Go byte slice are both sequences of bytes: \<open>string\<close> (a list of
  8-bit \<open>char\<close>) models both. \<open>int64\<close> and \<open>uint64\<close> are 64-bit words; \<open>sint\<close>
  reads the signed value and \<open>unat\<close> the unsigned one, and the conversion
  \<open>uint64(x)\<close> keeps the bits. Go's \<open>int\<close> holds indices and counters that never
  leave the range of a slice length; it is modelled by \<open>int\<close>.
\<close>

type_synonym int64 = "64 word"
type_synonym uint64 = "64 word"

datatype error =
    ErrNotYandexDisk
  | ErrDirectNotFound
  | ErrFileTooLarge
  | ErrArchiveTooLarge
  | Errorf string
  | External string

text \<open>\<open>Errorf\<close> carries the formatted message of \<open>fmt.Errorf\<close>; \<open>External\<close> is an error
  handed back by the standard library or the operating system.\<close>

subsection \<open>strconv.Itoa\<close>

definition digit_char :: "nat \<Rightarrow> char" where
  "digit_char d = ''0123456789'' ! (d mod 10)"

function digits :: "nat \<Rightarrow> string" where
  "digits n = (if n < 10 then [digit_char n] else digits (n div 10) @ [digit_char (n mod 10)])"
  by pat_completeness auto
termination
  by (relation "measure (\<lambda>n. n)") auto

declare digits.simps [simp del]

definition Itoa :: "int \<Rightarrow> string" where
  "Itoa i = (if i < 0 then CHR ''-'' # digits (nat (- i)) else digits (nat i))"

subsection \<open>Package strings\<close>

definition HasPrefix :: "string \<Rightarrow> string \<Rightarrow> bool" where
  "HasPrefix s p = (take (length p) s = p)"

definition HasSuffix :: "string \<Rightarrow> string \<Rightarrow> bool" where
  "HasSuffix s p = (length p \<le> length s \<and> drop (length s - length p) s = p)"

fun Contains :: "string \<Rightarrow> string \<Rightarrow> bool" where
  "Contains [] sub = (sub = [])"
| "Contains (c # cs) sub = (HasPrefix (c # cs) sub \<or> Contains cs sub)"

text \<open>\<open>strings.Index\<close>: the first position where \<open>sub\<close> starts, \<open>None\<close> for Go's -1.\<close>

fun Index :: "string \<Rightarrow> string \<Rightarrow> nat option" where
  "Index [] sub = (if sub = [] then Some 0 else None)"
| "Index (c # cs) sub =
     (if HasPrefix (c # cs) sub then Some 0 else map_option Suc (Index cs sub))"

text \<open>\<open>strings.IndexAny\<close> for a set of ASCII characters.\<close>

fun IndexAny :: "string \<Rightarrow> string \<Rightarrow> nat option" where
  "IndexAny [] chars = None"
| "IndexAny (c # cs) chars =
     (if c \<in> set chars then Some 0 else map_option Suc (IndexAny cs chars))"

text \<open>\<open>strings.Trim\<close> for a cutset of ASCII characters.\<close>

definition Trim :: "string \<Rightarrow> string \<Rightarrow> string" where
  "Trim s cutset =
     rev (dropWhile (\<lambda>c. c \<in> set cutset) (rev (dropWhile (\<lambda>c. c \<in> set cutset) s)))"

definition TrimSuffix :: "string \<Rightarrow> string \<Rightarrow> string" where
  "TrimSuffix s suffix = (if HasSuffix s suffix then take (length s - length suffix) s else s)"

text \<open>
  \<open>strings.TrimSpace\<close> removes the leading and trailing runes that \<open>unicode.IsSpace\<close>
  accepts. On the bytes of the string these are the six ASCII characters and the UTF-8
  encodings of U+0085, U+00A0, U+1680, U+2000 to U+200A, U+2028, U+2029, U+202F, U+205F
  and U+3000.
\<close>

definition space_seqs :: "string list" where
  "space_seqs =
     [[CHR 0x09], [CHR 0x0A], [CHR 0x0B], [CHR 0x0C], [CHR 0x0D], [CHR 0x20],
      [CHR 0xC2, CHR 0x85], [CHR 0xC2, CHR 0xA0],
      [CHR 0xE1, CHR 0x9A, CHR 0x80],
      [CHR 0xE2, CHR 0x80, CHR 0x80], [CHR 0xE2, CHR 0x80, CHR 0x81],
      [CHR 0xE2, CHR 0x80, CHR 0x82], [CHR 0xE2, CHR 0x80, CHR 0x83],
      [CHR 0xE2, CHR 0x80, CHR 0x84], [CHR 0xE2, CHR 0x80, CHR 0x85],
      [CHR 0xE2, CHR 0x80, CHR 0x86], [CHR 0xE2, CHR 0x80, CHR 0x87],
      [CHR 0xE2, CHR 0x80, CHR 0x88], [CHR 0xE2, CHR 0x80, CHR 0x89],
      [CHR 0xE2, CHR 0x80, CHR 0x8A],
      [CHR 0xE2, CHR 0x80, CHR 0xA8], [CHR 0xE2, CHR 0x80, CHR 0xA9],
      [CHR 0xE2, CHR 0x80, CHR 0xAF],
      [CHR 0xE2, CHR 0x81, CHR 0x9F],
      [CHR 0xE3, CHR 0x80, CHR 0x80]]"

lemma space_seqs_nonempty: "w \<in> set space_seqs \<Longrightarrow> w \<noteq> []"
  by (auto simp: space_seqs_def)

function TrimLeftSpace :: "string \<Rightarrow> string" where
  "TrimLeftSpace s =
     (case find (HasPrefix s) space_seqs of
        None \<Rightarrow> s
      | Some w \<Rightarrow> TrimLeftSpace (drop (length w) s))"
  by pat_completeness auto
termination
proof (relation "measure length")
  show "wf (measure length)" by simp
next
  fix s :: string and w
  assume "find (HasPrefix s) space_seqs = Some w"
  then have "w \<in> set space_seqs" and "HasPrefix s w"
    by (auto simp: find_Some_iff)
  then have "w \<noteq> []" and "take (length w) s = w"
    by (auto simp: space_seqs_nonempty HasPrefix_def)
  then have "s \<noteq> []" by auto
  with \<open>w \<noteq> []\<close> show "(drop (length w) s, s) \<in> measure length" by simp
qed

declare TrimLeftSpace.simps [simp del]

function TrimRightSpace :: "string \<Rightarrow> string" where
  "TrimRightSpace s =
     (case find (HasSuffix s) space_seqs of
        None \<Rightarrow> s
      | Some w \<Rightarrow> TrimRightSpace (take (length s - length w) s))"
  by pat_completeness auto
termination
proof (relation "measure length")
  show "wf (measure length)" by simp
next
  fix s :: string and w
  assume "find (HasSuffix s) space_seqs = Some w"
  then have "w \<in> set space_seqs" and "HasSuffix s w"
    by (auto simp: find_Some_iff)
  then have "w \<noteq> []" and "length w \<le> length s"
    by (auto simp: space_seqs_nonempty HasSuffix_def)
  then show "(take (length s - length w) s, s) \<in> measure length" by (cases w) auto
qed

declare TrimRightSpace.simps [simp del]

definition TrimSpace :: "string \<Rightarrow> string" where
  "TrimSpace s = TrimRightSpace (TrimLeftSpace s)"

section \<open>The network, as the downloader sees it\<close>

text \<open>
  A response body is a stream: the bytes it delivers and how it ends, at end of file or
  with a read error. A reader may return its error together with the last bytes, or by a
  read of its own after them.
\<close>

datatype stream_end = EOF | ErrorWithLast error | ErrorAfter error

definition stream_error :: "stream_end \<Rightarrow> error option" where
  "stream_error e = (case e of EOF \<Rightarrow> None | ErrorWithLast err \<Rightarrow> Some err
                     | ErrorAfter err \<Rightarrow> Some err)"

type_synonym body = "string \<times> stream_end"

text \<open>
  \<open>ReadAll_Limit\<close> is \<open>io.ReadAll(io.LimitReader(body, n))\<close>. A limited reader with
  \<open>n \<le> 0\<close> is at end of file at once. Otherwise at most \<open>n\<close> bytes are read: when the
  stream holds more, the reader stops after \<open>n\<close> bytes and reports end of file; when it
  holds exactly \<open>n\<close>, an error returned together with the last bytes is passed on by the
  limited reader and reported by \<open>io.ReadAll\<close>, and an error that a later read would
  give is never asked for; when it holds fewer, the end of the stream is met.
\<close>

definition ReadAll_Limit :: "body \<Rightarrow> int64 \<Rightarrow> string \<times> error option" where
  "ReadAll_Limit b n =
     (if sint n \<le> 0 then ([], None)
      else if nat (sint n) < length (fst b) then (take (nat (sint n)) (fst b), None)
      else if nat (sint n) = length (fst b) then
        (fst b, case snd b of ErrorWithLast err \<Rightarrow> Some err | _ \<Rightarrow> None)
      else (fst b, stream_error (snd b)))"

record response =
  StatusCode :: int
  ContentLength :: int64
  Header :: "string \<Rightarrow> string"
  Body :: body

datatype http_method = HEAD | GET

text \<open>
  What the program does on the network is recorded as a trace: each request sent, and
  each read of a response body with the number of bytes read.
\<close>

datatype net_event = Request http_method string | BodyRead nat

text \<open>
  The environment: \<open>NewRequest_err\<close> is the error of \<open>http.NewRequestWithContext\<close> for a
  URL (it sends nothing), \<open>client_Do\<close> the outcome of \<open>client.Do\<close> (a transport error,
  a timeout or the final response), \<open>json_href\<close> the \<open>href\<close> field that
  \<open>encoding/json\<close> decodes from a text, \<open>None\<close> when decoding fails.
\<close>

record net =
  NewRequest_err :: "string \<Rightarrow> error option"
  client_Do :: "http_method \<Rightarrow> string \<Rightarrow> error + response"
  json_href :: "string \<Rightarrow> string option"

record YandexDownloader =
  maxSize :: int64

definition StatusOK :: int where "StatusOK = 200"
definition StatusFound :: int where "StatusFound = 302"

section \<open>The downloader\<close>

definition isYandexDiskURL :: "string \<Rightarrow> bool" where
  "isYandexDiskURL s = (Contains s ''disk.yandex.ru'' \<or> Contains s ''disk.yandex.com'')"

text \<open>
  \<open>reDirectURL.FindString\<close>, for the expression
  \<^verbatim>\<open>https://downloader\.disk\.yandex\.[a-z.]+/disk/[^"'\s<>]+\<close>: the leftmost match,
  both repetitions as long as possible (the character after the first one must be a
  slash, which is outside its class, so no shorter repetition can match), and the empty
  string when nothing matches.
\<close>

definition re_host_char :: "char \<Rightarrow> bool" where
  "re_host_char c = ((97 \<le> (of_char c :: nat) \<and> (of_char c :: nat) \<le> 122) \<or> c = CHR ''.'')"

definition re_path_char :: "char \<Rightarrow> bool" where
  "re_path_char c =
     (c \<notin> set [CHR 0x22, CHR 0x27, CHR ''<'', CHR ''>'',
                 CHR 0x09, CHR 0x0A, CHR 0x0C, CHR 0x0D, CHR 0x20])"

definition re_match_here :: "string \<Rightarrow> string option" where
  "re_match_here s =
     (let lit = ''https://downloader.disk.yandex.'' in
      if HasPrefix s lit then
        (let r = drop (length lit) s;
             d = takeWhile re_host_char r;
             r2 = dropWhile re_host_char r
         in if d \<noteq> [] \<and> HasPrefix r2 ''/disk/'' then
              (let t = takeWhile re_path_char (drop 6 r2)
               in if t \<noteq> [] then Some (lit @ d @ ''/disk/'' @ t) else None)
            else None)
      else None)"

fun reDirectURL_FindString :: "string \<Rightarrow> string" where
  "reDirectURL_FindString [] = []"
| "reDirectURL_FindString (c # cs) =
     (case re_match_here (c # cs) of
        Some m \<Rightarrow> m
      | None \<Rightarrow> reDirectURL_FindString cs)"

text \<open>\<open>url.QueryEscape\<close>.\<close>

definition unreserved :: "char \<Rightarrow> bool" where
  "unreserved c =
     (let n = (of_char c :: nat)
      in (97 \<le> n \<and> n \<le> 122) \<or> (65 \<le> n \<and> n \<le> 90) \<or> (48 \<le> n \<and> n \<le> 57)
         \<or> c \<in> set ''-_.~'')"

definition upperhex :: "nat \<Rightarrow> char" where
  "upperhex n = ''0123456789ABCDEF'' ! (n mod 16)"

definition QueryEscape :: "string \<Rightarrow> string" where
  "QueryEscape s =
     concat (map (\<lambda>c. if unreserved c then [c]
                       else if c = CHR '' '' then ''+''
                       else [CHR ''%'', upperhex ((of_char c :: nat) div 16),
                             upperhex ((of_char c :: nat) mod 16)]) s)"

definition empty_link_msg :: string where
  "empty_link_msg =
     [CHR 0xD0, CHR 0xBF, CHR 0xD1, CHR 0x83, CHR 0xD1, CHR 0x81, CHR 0xD1, CHR 0x82,
      CHR 0xD0, CHR 0xB0, CHR 0xD1, CHR 0x8F, CHR 0x20, CHR 0xD1, CHR 0x81, CHR 0xD1,
      CHR 0x81, CHR 0xD1, CHR 0x8B, CHR 0xD0, CHR 0xBB, CHR 0xD0, CHR 0xBA, CHR 0xD0,
      CHR 0xB0]"

text \<open>Every function of the downloader returns its result and the trace of what it did
  on the network.\<close>

definition getDirectViaCloudAPI :: "net \<Rightarrow> string \<Rightarrow> string \<times> net_event list" where
  "getDirectViaCloudAPI env shareURL =
     (let u = ''https://cloud-api.yandex.net/v1/disk/public/resources/download?public_key=''
              @ QueryEscape shareURL
      in case NewRequest_err env u of
           Some e \<Rightarrow> ([], [])
         | None \<Rightarrow>
             (case client_Do env GET u of
                Inl e \<Rightarrow> ([], [Request GET u])
              | Inr resp \<Rightarrow>
                  if StatusCode resp \<noteq> StatusOK then ([], [Request GET u])
                  else
                    (let text = fst (ReadAll_Limit (Body resp) 16384);
                         tr = [Request GET u, BodyRead (length text)]
                     in case json_href env text of
                          None \<Rightarrow> ([], tr)
                        | Some href \<Rightarrow> (TrimSpace href, tr))))"

definition GetDirectURL :: "net \<Rightarrow> string \<Rightarrow> (error + string) \<times> net_event list" where
  "GetDirectURL env shareURL0 =
     (let shareURL = TrimSpace shareURL0
      in if shareURL = [] then (Inl (Errorf empty_link_msg), [])
         else if \<not> isYandexDiskURL shareURL then (Inr shareURL, [])
         else
           (case NewRequest_err env shareURL of
              Some e \<Rightarrow> (Inl e, [])
            | None \<Rightarrow>
                (case client_Do env GET shareURL of
                   Inl e \<Rightarrow> (Inl e, [Request GET shareURL])
                 | Inr resp \<Rightarrow>
                     (let loc = Header resp ''Location''
                      in if loc \<noteq> [] \<and> Contains loc ''downloader.disk.yandex''
                         then (Inr loc, [Request GET shareURL])
                         else
                           (case ReadAll_Limit (Body resp) 1048576 of
                              (text, Some e) \<Rightarrow>
                                (Inl e, [Request GET shareURL, BodyRead (length text)])
                            | (text, None) \<Rightarrow>
                                (let tr = [Request GET shareURL, BodyRead (length text)];
                                     direct = reDirectURL_FindString text
                                 in if direct \<noteq> [] then (Inr direct, tr)
                                    else
                                      (case getDirectViaCloudAPI env shareURL of
                                         (href, tr2) \<Rightarrow>
                                           if href \<noteq> [] then (Inr href, tr @ tr2)
                                           else (Inl ErrDirectNotFound, tr @ tr2))))))))"

definition GetFileSize :: "net \<Rightarrow> string \<Rightarrow> (error + int64) \<times> net_event list" where
  "GetFileSize env shareURL0 =
     (let shareURL = TrimSpace shareURL0
      in if shareURL = [] then (Inl (Errorf empty_link_msg), [])
         else if \<not> isYandexDiskURL shareURL then (Inl ErrNotYandexDisk, [])
         else
           (case GetDirectURL env shareURL of
              (Inl e, tr) \<Rightarrow> (Inl e, tr)
            | (Inr direct, tr) \<Rightarrow>
                (case NewRequest_err env direct of
                   Some e \<Rightarrow> (Inl e, tr)
                 | None \<Rightarrow>
                     (case client_Do env HEAD direct of
                        Inl e \<Rightarrow> (Inl e, tr @ [Request HEAD direct])
                      | Inr resp \<Rightarrow>
                          if StatusCode resp \<noteq> StatusOK \<and> StatusCode resp \<noteq> StatusFound
                          then (Inl (Errorf (''HEAD '' @ direct @ '': '' @ Itoa (StatusCode resp))),
                                tr @ [Request HEAD direct])
                          else if 0 \<le> sint (ContentLength resp)
                          then (Inr (ContentLength resp), tr @ [Request HEAD direct])
                          else (Inr (- 1), tr @ [Request HEAD direct])))))"

text \<open>The file name that \<open>downloadByURL\<close> takes from the Content-Disposition header.\<close>

definition disposition_filename :: "string \<Rightarrow> string" where
  "disposition_filename cd =
     (if cd = [] then ''document''
      else case Index cd ''filename='' of
             None \<Rightarrow> ''document''
           | Some i \<Rightarrow>
               (let s0 = Trim (drop (i + 9) cd) [CHR '' '', CHR 0x22, CHR 0x27];
                    s = (case IndexAny s0 [CHR '';'', CHR '' '', CHR 0x09, CHR 0x0A] of
                           None \<Rightarrow> s0
                         | Some e \<Rightarrow> if 0 < e then take e s0 else s0)
                in if s \<noteq> [] then s else ''document''))"

definition downloadByURL ::
  "net \<Rightarrow> YandexDownloader \<Rightarrow> string \<Rightarrow> (error + string \<times> string) \<times> net_event list" where
  "downloadByURL env y downloadURL =
     (case NewRequest_err env downloadURL of
        Some e \<Rightarrow> (Inl e, [])
      | None \<Rightarrow>
          (case client_Do env HEAD downloadURL of
             Inl e \<Rightarrow> (Inl e, [Request HEAD downloadURL])
           | Inr resp \<Rightarrow>
               if StatusCode resp \<noteq> StatusOK \<and> StatusCode resp \<noteq> StatusFound
               then (Inl (Errorf (''HEAD '' @ downloadURL @ '': '' @ Itoa (StatusCode resp))),
                     [Request HEAD downloadURL])
               else if 0 < sint (ContentLength resp) \<and> sint (maxSize y) < sint (ContentLength resp)
               then (Inl ErrFileTooLarge, [Request HEAD downloadURL])
               else
                 (let filename = disposition_filename (Header resp ''Content-Disposition'')
                  in case client_Do env GET downloadURL of
                       Inl e \<Rightarrow> (Inl e, [Request HEAD downloadURL, Request GET downloadURL])
                     | Inr respGet \<Rightarrow>
                         if StatusCode respGet \<noteq> StatusOK
                         then (Inl (Errorf (''GET '' @ downloadURL @ '': ''
                                            @ Itoa (StatusCode respGet))),
                               [Request HEAD downloadURL, Request GET downloadURL])
                         else
                           (let limit = maxSize y
                            in if 0 < sint (ContentLength respGet)
                                  \<and> sint limit < sint (ContentLength respGet)
                               then (Inl ErrFileTooLarge,
                                     [Request HEAD downloadURL, Request GET downloadURL])
                               else
                                 (case ReadAll_Limit (Body respGet) (limit + 1) of
                                    (data, Some e) \<Rightarrow>
                                      (Inl e, [Request HEAD downloadURL, Request GET downloadURL,
                                               BodyRead (length data)])
                                  | (data, None) \<Rightarrow>
                                      if sint (maxSize y) < sint (word_of_nat (length data) :: int64)
                                      then (Inl ErrFileTooLarge,
                                            [Request HEAD downloadURL, Request GET downloadURL,
                                             BodyRead (length data)])
                                      else (Inr (data, filename),
                                            [Request HEAD downloadURL, Request GET downloadURL,
                                             BodyRead (length data)]))))))"


section \<open>Package path/filepath, on a system whose separator is the slash\<close>

text \<open>The elements of a path: the pieces between slashes, empty ones included.\<close>

fun split_slash :: "string \<Rightarrow> string list" where
  "split_slash [] = [[]]"
| "split_slash (c # cs) =
     (if c = CHR ''/'' then [] # split_slash cs
      else (case split_slash cs of
              [] \<Rightarrow> [[c]]
            | w # ws \<Rightarrow> (c # w) # ws))"

fun join_slash :: "string list \<Rightarrow> string" where
  "join_slash [] = []"
| "join_slash [c] = c"
| "join_slash (c # d # cs) = c @ CHR ''/'' # join_slash (d # cs)"

text \<open>
  \<open>filepath.Clean\<close> reads the elements from left to right and keeps the elements of its
  output on a stack (\<open>clean_step\<close> has the last one first): an empty element and \<open>.\<close>
  are dropped; \<open>..\<close> removes the last element when that is a name, is dropped at the
  root, and is kept when the path is relative and nothing is left to remove; any
  other element is kept.
\<close>

definition clean_step :: "bool \<Rightarrow> string list \<Rightarrow> string \<Rightarrow> string list" where
  "clean_step rooted out c =
     (if c = [] \<or> c = ''.'' then out
      else if c = ''..'' then
        (case out of
           [] \<Rightarrow> if rooted then [] else [''..'']
         | t # ts \<Rightarrow> if t \<noteq> ''..'' then ts else if rooted then out else ''..'' # out)
      else c # out)"

definition clean_render :: "bool \<Rightarrow> string list \<Rightarrow> string" where
  "clean_render rooted out =
     (if rooted then CHR ''/'' # join_slash (rev out)
      else if out = [] then ''.'' else join_slash (rev out))"

definition Clean :: "string \<Rightarrow> string" where
  "Clean p =
     (if p = [] then ''.''
      else
        (let rooted = (hd p = CHR ''/'')
         in clean_render rooted (foldl (clean_step rooted) [] (split_slash p))))"

text \<open>\<open>filepath.Join\<close> of two elements.\<close>

definition Join :: "string \<Rightarrow> string \<Rightarrow> string" where
  "Join a b =
     (if a \<noteq> [] then Clean (a @ ''/'' @ b)
      else if b \<noteq> [] then Clean b
      else [])"

definition Base :: "string \<Rightarrow> string" where
  "Base p =
     (if p = [] then ''.''
      else
        (let p1 = rev (dropWhile (\<lambda>c. c = CHR ''/'') (rev p));
             p2 = rev (takeWhile (\<lambda>c. c \<noteq> CHR ''/'') (rev p1))
         in if p2 = [] then ''/'' else p2))"

definition Ext :: "string \<Rightarrow> string" where
  "Ext p =
     (let e = rev (takeWhile (\<lambda>c. c \<noteq> CHR ''/'') (rev p))
      in if CHR ''.'' \<in> set e
         then CHR ''.'' # rev (takeWhile (\<lambda>c. c \<noteq> CHR ''.'') (rev e))
         else [])"

text \<open>A name: an element that \<open>Clean\<close> keeps as it is.\<close>

definition plain_name :: "string \<Rightarrow> bool" where
  "plain_name n = (n \<noteq> [] \<and> n \<noteq> ''.'' \<and> n \<noteq> ''..'' \<and> CHR ''/'' \<notin> set n)"

section \<open>Package strings: Map\<close>

text \<open>
  \<open>strings.Map\<close> walks the runes of a string. \<open>utf8_width\<close> is the number of bytes of
  the UTF-8 encoding that starts a string, 0 when the bytes there are no valid encoding
  (Go then reads one byte as the rune U+FFFD). The mapping functions of this program
  change ASCII runes only and give every other rune back, so \<open>strings_Map\<close> takes the
  mapping on ASCII characters (\<open>None\<close> drops the character): an encoded rune beyond ASCII
  is copied, and an invalid byte comes out as the three bytes of U+FFFD.
\<close>

definition cont_byte :: "char \<Rightarrow> bool" where
  "cont_byte c = (128 \<le> (of_char c :: nat) \<and> (of_char c :: nat) \<le> 191)"

definition second_byte :: "nat \<Rightarrow> char \<Rightarrow> bool" where
  "second_byte n0 c =
     (let n1 = (of_char c :: nat)
      in if n0 = 224 then 160 \<le> n1 \<and> n1 \<le> 191
         else if n0 = 237 then 128 \<le> n1 \<and> n1 \<le> 159
         else if n0 = 240 then 144 \<le> n1 \<and> n1 \<le> 191
         else if n0 = 244 then 128 \<le> n1 \<and> n1 \<le> 143
         else 128 \<le> n1 \<and> n1 \<le> 191)"

definition utf8_width :: "string \<Rightarrow> nat" where
  "utf8_width s =
     (case s of
        [] \<Rightarrow> 0
      | b0 # r \<Rightarrow>
          (let n0 = (of_char b0 :: nat)
           in if n0 < 128 then 1
              else if 194 \<le> n0 \<and> n0 \<le> 223 then
                (case r of b1 # _ \<Rightarrow> if cont_byte b1 then 2 else 0 | _ \<Rightarrow> 0)
              else if 224 \<le> n0 \<and> n0 \<le> 239 then
                (case r of
                   b1 # b2 # _ \<Rightarrow> if second_byte n0 b1 \<and> cont_byte b2 then 3 else 0
                 | _ \<Rightarrow> 0)
              else if 240 \<le> n0 \<and> n0 \<le> 244 then
                (case r of
                   b1 # b2 # b3 # _ \<Rightarrow>
                     if second_byte n0 b1 \<and> cont_byte b2 \<and> cont_byte b3 then 4 else 0
                 | _ \<Rightarrow> 0)
              else 0))"

definition rune_error :: string where
  "rune_error = [CHR 0xEF, CHR 0xBF, CHR 0xBD]"

function strings_Map :: "(char \<Rightarrow> char option) \<Rightarrow> string \<Rightarrow> string" where
  "strings_Map f [] = []"
| "strings_Map f (c # cs) =
     (if (of_char c :: nat) < 128 then
        (case f c of None \<Rightarrow> [] | Some d \<Rightarrow> [d]) @ strings_Map f cs
      else if utf8_width (c # cs) = 0 then rune_error @ strings_Map f cs
      else take (utf8_width (c # cs)) (c # cs)
           @ strings_Map f (drop (utf8_width (c # cs)) (c # cs)))"
  by pat_completeness auto
termination
  by (relation "measure (\<lambda>(f, s). length s)") auto

declare strings_Map.simps (2) [simp del]

section \<open>File names of the archive builders\<close>

definition bad_chars :: string where
  "bad_chars = [CHR ''/'', CHR 0x5C, CHR '':'', CHR ''*'', CHR ''?'', CHR 0x22,
                CHR ''<'', CHR ''>'', CHR ''|'']"

definition sanitizeCategoryForZip :: "string \<Rightarrow> string" where
  "sanitizeCategoryForZip s =
     (let out = TrimSpace (strings_Map
                  (\<lambda>r. if r \<in> set bad_chars then None
                       else if r = CHR '' '' \<or> r = CHR 0x09 then Some (CHR ''_'')
                       else Some r) s)
      in if out = [] then ''archive'' else out)"

definition sanitizeBulkFilename :: "string \<Rightarrow> string" where
  "sanitizeBulkFilename s =
     TrimSpace (strings_Map (\<lambda>r. if r \<in> set bad_chars then None else Some r) s)"

record BulkItem =
  URL :: string
  Filename :: string

section \<open>The operating system, as the archive builders see it\<close>

text \<open>
  A file system holds directories and files by their cleaned path. A zip archive is
  kept as the entries, name and content, that were created through its writer.
\<close>

datatype content = Bytes string | Archive "(string \<times> string) list"

record fs =
  dirs :: "string set"
  files :: "string \<rightharpoonup> content"

text \<open>
  The environment gives what the program cannot decide: the platform, the result of
  \<open>statfs\<close> (available blocks and block size), the variable \<open>TMPDIR\<close>, the failures of
  the system calls and of the zip writer (by path or entry name, \<open>None\<close> for success),
  and \<open>fetch\<close>, the bytes that a download of a link delivers, or its error.
\<close>

record os =
  GOOS :: string
  Statfs :: "string \<Rightarrow> error + uint64 \<times> int64"
  TMPDIR :: string
  MkdirAll_err :: "string \<Rightarrow> error option"
  WriteFile_err :: "string \<Rightarrow> error option"
  Create_err :: "string \<Rightarrow> error option"
  Open_err :: "string \<Rightarrow> error option"
  CreateHeader_err :: "string \<Rightarrow> error option"
  zw_Close_err :: "string \<Rightarrow> error option"
  zf_Close_err :: "string \<Rightarrow> error option"
  fetch :: "string \<Rightarrow> error + string"

definition os_TempDir :: "os \<Rightarrow> string" where
  "os_TempDir env = (if TMPDIR env = [] then ''/tmp'' else TMPDIR env)"

text \<open>\<open>under d p\<close>: the path \<open>p\<close> is \<open>d\<close> or lies below it.\<close>

definition under :: "string \<Rightarrow> string \<Rightarrow> bool" where
  "under d p = (p = d \<or> HasPrefix p (d @ ''/''))"

text \<open>
  \<open>os.MkdirAll\<close> leaves the directory and its parent in place (it creates the parents
  that are missing). Writing or creating a file at the path of a directory fails.
  \<open>os.RemoveAll\<close> removes a path and everything below it.
\<close>

definition os_MkdirAll :: "os \<Rightarrow> fs \<Rightarrow> string \<Rightarrow> error option \<times> fs" where
  "os_MkdirAll env disk p =
     (case MkdirAll_err env p of
        Some e \<Rightarrow> (Some e, disk)
      | None \<Rightarrow> (None, disk\<lparr>dirs := dirs disk \<union> {p, Join p ''..''}\<rparr>))"

definition os_WriteFile :: "os \<Rightarrow> fs \<Rightarrow> string \<Rightarrow> string \<Rightarrow> error option \<times> fs" where
  "os_WriteFile env disk p data =
     (if p \<in> dirs disk then (Some (External ''is a directory''), disk)
      else case WriteFile_err env p of
             Some e \<Rightarrow> (Some e, disk)
           | None \<Rightarrow> (None, disk\<lparr>files := (files disk)(p \<mapsto> Bytes data)\<rparr>))"

definition os_Create :: "os \<Rightarrow> fs \<Rightarrow> string \<Rightarrow> error option \<times> fs" where
  "os_Create env disk p =
     (if p \<in> dirs disk then (Some (External ''is a directory''), disk)
      else case Create_err env p of
             Some e \<Rightarrow> (Some e, disk)
           | None \<Rightarrow> (None, disk\<lparr>files := (files disk)(p \<mapsto> Bytes [])\<rparr>))"

text \<open>\<open>os.Open\<close> followed by reading the file to its end; a directory and a file that
  is being written as an archive give no bytes.\<close>

definition os_Open :: "os \<Rightarrow> fs \<Rightarrow> string \<Rightarrow> error + string" where
  "os_Open env disk p =
     (case Open_err env p of
        Some e \<Rightarrow> Inl e
      | None \<Rightarrow>
          (case files disk p of
             Some (Bytes b) \<Rightarrow> Inr b
           | Some (Archive es) \<Rightarrow> Inr []
           | None \<Rightarrow> if p \<in> dirs disk then Inr [] else Inl (External ''no such file'')))"

definition os_RemoveAll :: "string \<Rightarrow> fs \<Rightarrow> fs" where
  "os_RemoveAll d disk =
     \<lparr>dirs = {p \<in> dirs disk. \<not> under d p},
      files = (\<lambda>p. if under d p then None else files disk p)\<rparr>"

subsection \<open>uuid.New().String()\<close>

type_synonym uuid = "8 word list"

definition lowerhex :: "nat \<Rightarrow> char" where
  "lowerhex n = ''0123456789abcdef'' ! (n mod 16)"

definition hex_encode :: "8 word list \<Rightarrow> string" where
  "hex_encode bs = concat (map (\<lambda>b. [lowerhex (unat b div 16), lowerhex (unat b mod 16)]) bs)"

definition uuid_String :: "uuid \<Rightarrow> string" where
  "uuid_String u =
     hex_encode (take 4 u) @ ''-'' @ hex_encode (take 2 (drop 4 u)) @ ''-''
     @ hex_encode (take 2 (drop 6 u)) @ ''-'' @ hex_encode (take 2 (drop 8 u)) @ ''-''
     @ hex_encode (take 6 (drop 10 u))"

subsection \<open>Free space\<close>

definition MaxUint64 :: uint64 where
  "MaxUint64 = - 1"

definition getFreeSpaceBytes :: "os \<Rightarrow> string \<Rightarrow> uint64" where
  "getFreeSpaceBytes env path =
     (if GOOS env = ''windows'' then MaxUint64
      else case Statfs env path of
             Inl e \<Rightarrow> MaxUint64
           | Inr (Bavail, Bsize) \<Rightarrow> Bavail * Bsize)"

section \<open>The archive builders\<close>

text \<open>
  Modelled from the spec: \<open>DownloadToFile\<close> is called by \<open>BulkDownloadAndZip\<close> but is
  not among the sources. The spec has the bulk path fetch each item through the stream
  fetcher directly into the workspace, under the fetcher's byte ceiling, and add the
  size of the item to a running total: the model fetches the bytes of the link, fails
  with \<open>ErrFileTooLarge\<close> above the ceiling, writes the bytes to the destination and
  returns their number.
\<close>

definition DownloadToFile ::
  "os \<Rightarrow> YandexDownloader \<Rightarrow> fs \<Rightarrow> string \<Rightarrow> string \<Rightarrow> (error + int64) \<times> fs" where
  "DownloadToFile env y disk url destPath =
     (case fetch env url of
        Inl e \<Rightarrow> (Inl e, disk)
      | Inr data \<Rightarrow>
          if sint (maxSize y) < int (length data) then (Inl ErrFileTooLarge, disk)
          else
            (case os_WriteFile env disk destPath data of
               (Some e, disk') \<Rightarrow> (Inl e, disk')
             | (None, disk') \<Rightarrow> (Inr (word_of_nat (length data)), disk')))"

text \<open>
  The inner loop of \<open>BulkDownloadAndZip\<close>: while the name is in use, count up and put
  the counter before the extension. \<open>used\<close> is the Go map of the names taken so far,
  kept as the list of its keys.
\<close>

definition suffixed :: "string \<Rightarrow> string \<Rightarrow> int \<Rightarrow> string" where
  "suffixed baseNoExt ext counter =
     (if ext \<noteq> [] then baseNoExt @ ''_'' @ Itoa counter @ ext
      else baseNoExt @ ''_'' @ Itoa counter)"

function unique_name :: "string list \<Rightarrow> string \<Rightarrow> string \<Rightarrow> string \<Rightarrow> int \<Rightarrow> string" where
  "unique_name taken baseNoExt ext finalName counter =
     (if finalName \<in> set taken
      then unique_name taken baseNoExt ext (suffixed baseNoExt ext (counter + 1)) (counter + 1)
      else finalName)"
  by pat_completeness auto

text \<open>The loop ends because \<open>strconv.Itoa\<close> gives different counters different texts, so
  the finitely many names in use are passed after finitely many steps.\<close>

lemma digit_char_val: "d < 10 \<Longrightarrow> (of_char (digit_char d) :: nat) = 48 + d"
proof -
  assume "d < 10"
  then have "d = 0 \<or> d = 1 \<or> d = 2 \<or> d = 3 \<or> d = 4 \<or> d = 5 \<or> d = 6 \<or> d = 7 \<or> d = 8 \<or> d = 9"
    by arith
  then show ?thesis by (auto simp: digit_char_def)
qed

lemma digit_char_inj: "a < 10 \<Longrightarrow> b < 10 \<Longrightarrow> digit_char a = digit_char b \<Longrightarrow> a = b"
proof -
  assume a: "a < 10" and b: "b < 10" and eq: "digit_char a = digit_char b"
  have "48 + a = (of_char (digit_char a) :: nat)" using a by (simp only: digit_char_val)
  also have "\<dots> = (of_char (digit_char b) :: nat)" by (simp only: eq)
  also have "\<dots> = 48 + b" using b by (simp only: digit_char_val)
  finally show ?thesis by simp
qed

lemma digits_nonempty: "digits n \<noteq> []"
  by (subst digits.simps) simp

lemma digits_length_small: "length (digits n) = 1 \<longleftrightarrow> n < 10"
proof (cases "n < 10")
  case True
  then show ?thesis by (subst digits.simps) simp
next
  case False
  have "digits (n div 10) \<noteq> []" by (rule digits_nonempty)
  then have "0 < length (digits (n div 10))" by simp
  with False show ?thesis by (subst digits.simps) simp
qed

lemma digits_inj: "digits n = digits m \<Longrightarrow> n = m"
proof (induction n arbitrary: m rule: digits.induct)
  case (1 n)
  from "1.prems" have len: "length (digits n) = length (digits m)" by simp
  show ?case
  proof (cases "n < 10")
    case True
    with len have m: "m < 10" using digits_length_small [of n] digits_length_small [of m] by simp
    from "1.prems" True m have "digit_char n = digit_char m"
      by (simp add: digits.simps [of n] digits.simps [of m])
    with True m show ?thesis by (rule digit_char_inj)
  next
    case False
    with len have m: "\<not> m < 10" using digits_length_small [of n] digits_length_small [of m] by simp
    from "1.prems" False m
    have eq: "digits (n div 10) @ [digit_char (n mod 10)]
        = digits (m div 10) @ [digit_char (m mod 10)]"
      by (simp add: digits.simps [of n] digits.simps [of m])
    then have a: "digits (n div 10) = digits (m div 10)"
      and b: "digit_char (n mod 10) = digit_char (m mod 10)" by simp_all
    from a have "n div 10 = m div 10" using False by (rule "1.IH" [rotated])
    moreover from b have "n mod 10 = m mod 10" by (intro digit_char_inj) simp_all
    ultimately show ?thesis by (metis div_mult_mod_eq)
  qed
qed

lemma digits_chars: "c \<in> set (digits n) \<Longrightarrow> 48 \<le> (of_char c :: nat) \<and> (of_char c :: nat) \<le> 57"
proof (induction n rule: digits.induct)
  case (1 n)
  show ?case
  proof (cases "n < 10")
    case True
    with "1.prems" have "c = digit_char n" by (simp add: digits.simps [of n])
    then show ?thesis using digit_char_val [OF True] True by simp
  next
    case False
    with "1.prems" have "c \<in> set (digits (n div 10)) \<or> c = digit_char (n mod 10)"
      by (auto simp: digits.simps [of n])
    then show ?thesis
    proof
      assume "c \<in> set (digits (n div 10))"
      with False "1.IH" show ?thesis by blast
    next
      assume c: "c = digit_char (n mod 10)"
      have "n mod 10 < 10" by simp
      from digit_char_val [OF this] c show ?thesis by simp
    qed
  qed
qed

lemma digits_no_minus: "digits n \<noteq> CHR ''-'' # s"
proof
  assume "digits n = CHR ''-'' # s"
  then have "CHR ''-'' \<in> set (digits n)" by simp
  from digits_chars [OF this] show False by simp
qed

lemma Itoa_inj: "Itoa a = Itoa b \<Longrightarrow> a = b"
proof -
  assume eq: "Itoa a = Itoa b"
  show ?thesis
  proof (cases "a < 0")
    case True
    show ?thesis
    proof (cases "b < 0")
      case b: True
      with True eq have "digits (nat (- a)) = digits (nat (- b))" by (simp add: Itoa_def)
      then have "nat (- a) = nat (- b)" by (rule digits_inj)
      with True b show ?thesis by simp
    next
      case False
      with True eq have "digits (nat b) = CHR ''-'' # digits (nat (- a))"
        by (simp add: Itoa_def)
      with digits_no_minus show ?thesis by blast
    qed
  next
    case False
    show ?thesis
    proof (cases "b < 0")
      case True
      with False eq have "digits (nat a) = CHR ''-'' # digits (nat (- b))"
        by (simp add: Itoa_def)
      with digits_no_minus show ?thesis by blast
    next
      case b: False
      with False eq have "digits (nat a) = digits (nat b)" by (simp add: Itoa_def)
      then have "nat a = nat b" by (rule digits_inj)
      with False b show ?thesis by simp
    qed
  qed
qed

lemma suffixed_inj: "suffixed b e c = suffixed b e c' \<Longrightarrow> c = c'"
  by (auto simp: suffixed_def dest: Itoa_inj split: if_splits)

lemma suffixed_taken_finite: "finite {k. suffixed b e k \<in> set taken}"
proof -
  have "inj (suffixed b e)" by (rule injI) (rule suffixed_inj)
  then have "finite (suffixed b e -` set taken)" by (intro finite_vimageI) simp_all
  then show ?thesis by (simp add: vimage_def)
qed

lemma suffixed_taken_card:
  "card {k. c < k \<and> suffixed b e k \<in> set taken}
     = card {k. c + 1 < k \<and> suffixed b e k \<in> set taken}
       + (if suffixed b e (c + 1) \<in> set taken then 1 else 0)"
proof -
  let ?S = "{k. c + 1 < k \<and> suffixed b e k \<in> set taken}"
  have fin: "finite ?S"
    by (rule finite_subset [OF _ suffixed_taken_finite [of b e taken]]) auto
  show ?thesis
  proof (cases "suffixed b e (c + 1) \<in> set taken")
    case True
    then have "{k. c < k \<and> suffixed b e k \<in> set taken} = insert (c + 1) ?S" by auto
    moreover have "c + 1 \<notin> ?S" by simp
    ultimately show ?thesis using fin True by simp
  next
    case False
    then have "{k. c < k \<and> suffixed b e k \<in> set taken} = ?S"
      by (auto simp: order_less_le)
    then show ?thesis using False by simp
  qed
qed

termination unique_name
proof (relation "measure (\<lambda>(taken, b, e, fn, c).
    2 * card {k. c < k \<and> suffixed b e k \<in> set taken} + (if fn \<in> set taken then 1 else 0))")
  show "wf (measure (\<lambda>(taken, b, e, fn, c).
    2 * card {k. c < k \<and> suffixed b e k \<in> set taken} + (if fn \<in> set taken then 1 else 0)))"
    by simp
next
  fix taken :: "string list" and baseNoExt ext finalName :: string and counter :: int
  assume "finalName \<in> set taken"
  then show "((taken, baseNoExt, ext, suffixed baseNoExt ext (counter + 1), counter + 1),
              (taken, baseNoExt, ext, finalName, counter))
     \<in> measure (\<lambda>(taken, b, e, fn, c).
          2 * card {k. c < k \<and> suffixed b e k \<in> set taken} + (if fn \<in> set taken then 1 else 0))"
    using suffixed_taken_card [of counter baseNoExt ext taken] by simp
qed

declare unique_name.simps [simp del]

text \<open>The name given to item \<open>i\<close> of a batch when the names in \<open>taken\<close> are in use.\<close>

definition bulk_base :: "nat \<Rightarrow> BulkItem \<Rightarrow> string" where
  "bulk_base i it =
     (let base = sanitizeBulkFilename (Filename it)
      in if base = [] then ''file_'' @ Itoa (int i) else base)"

definition bulk_name :: "string list \<Rightarrow> nat \<Rightarrow> BulkItem \<Rightarrow> string" where
  "bulk_name taken i it =
     (let base = bulk_base i it;
          ext = Ext base;
          baseNoExt = TrimSuffix base ext
      in unique_name taken baseNoExt ext base 0)"

text \<open>The variables of the item loop, and the file system.\<close>

record bulk_state =
  used :: "string list"
  writtenPaths :: "string list"
  total :: int64
  on_disk :: fs

text \<open>One iteration of the item loop: the state after it, or the error with the file
  system that \<open>cleanup\<close> leaves.\<close>

definition bulk_step ::
  "os \<Rightarrow> YandexDownloader \<Rightarrow> string \<Rightarrow> int64 \<Rightarrow> nat \<Rightarrow> BulkItem \<Rightarrow> bulk_state
     \<Rightarrow> error \<times> fs + bulk_state" where
  "bulk_step env y baseDir maxArchiveBytes i it st =
     (let finalName = bulk_name (used st) i it;
          destPath = Join baseDir finalName
      in case DownloadToFile env y (on_disk st) (URL it) destPath of
           (Inl e, disk') \<Rightarrow> Inl (e, os_RemoveAll baseDir disk')
         | (Inr n, disk') \<Rightarrow>
             if sint maxArchiveBytes < sint (total st + n)
             then Inl (ErrArchiveTooLarge, os_RemoveAll baseDir disk')
             else Inr \<lparr>used = finalName # used st,
                       writtenPaths = writtenPaths st @ [destPath],
                       total = total st + n,
                       on_disk = disk'\<rparr>)"

fun bulk_items ::
  "os \<Rightarrow> YandexDownloader \<Rightarrow> string \<Rightarrow> int64 \<Rightarrow> nat \<Rightarrow> BulkItem list \<Rightarrow> bulk_state
     \<Rightarrow> error \<times> fs + bulk_state" where
  "bulk_items env y baseDir maxArchiveBytes i [] st = Inr st"
| "bulk_items env y baseDir maxArchiveBytes i (it # items) st =
     (case bulk_step env y baseDir maxArchiveBytes i it st of
        Inl failure \<Rightarrow> Inl failure
      | Inr st' \<Rightarrow> bulk_items env y baseDir maxArchiveBytes (Suc i) items st')"

text \<open>The loop that writes the files into the archive: the entries created, or the
  first error of \<open>CreateHeader\<close> or \<open>os.Open\<close>. The result of \<open>io.Copy\<close> is not looked at.\<close>

fun zip_files ::
  "os \<Rightarrow> fs \<Rightarrow> string list \<Rightarrow> (string \<times> string) list \<Rightarrow> error + (string \<times> string) list" where
  "zip_files env disk [] entries = Inr entries"
| "zip_files env disk (p # ps) entries =
     (let innerName = Base p
      in case CreateHeader_err env innerName of
           Some e \<Rightarrow> Inl e
         | None \<Rightarrow>
             (case os_Open env disk p of
                Inl e \<Rightarrow> Inl e
              | Inr data \<Rightarrow> zip_files env disk ps (entries @ [(innerName, data)])))"

definition bulk_dir :: "os \<Rightarrow> uuid \<Rightarrow> string" where
  "bulk_dir env u = Join (os_TempDir env) (''bulk_'' @ uuid_String u)"

definition BulkDownloadAndZip ::
  "os \<Rightarrow> fs \<Rightarrow> uuid \<Rightarrow> YandexDownloader option \<Rightarrow> BulkItem list \<Rightarrow> string \<Rightarrow> int64 \<Rightarrow> int64
     \<Rightarrow> (error + string \<times> string) \<times> fs" where
  "BulkDownloadAndZip env disk u yandex items categoryName maxArchiveBytes minFreeBytes =
     (case yandex of
        None \<Rightarrow> (Inl (Errorf ''yandex or items empty''), disk)
      | Some y \<Rightarrow>
          if items = [] then (Inl (Errorf ''yandex or items empty''), disk)
          else if getFreeSpaceBytes env (os_TempDir env) < minFreeBytes
          then (Inl (Errorf ''not enough disk space''), disk)
          else
            (let baseDir = bulk_dir env u
             in case os_MkdirAll env disk baseDir of
                  (Some e, disk1) \<Rightarrow> (Inl e, disk1)
                | (None, disk1) \<Rightarrow>
                    (case bulk_items env y baseDir maxArchiveBytes 0 items
                            \<lparr>used = [], writtenPaths = [], total = 0, on_disk = disk1\<rparr> of
                       Inl (e, disk2) \<Rightarrow> (Inl e, disk2)
                     | Inr st \<Rightarrow>
                         (let zipName0 = sanitizeCategoryForZip categoryName @ ''.zip'';
                              zipName = (if zipName0 = ''.zip'' then ''archive.zip'' else zipName0);
                              zipPath = Join baseDir zipName
                          in case os_Create env (on_disk st) zipPath of
                               (Some e, disk3) \<Rightarrow> (Inl e, os_RemoveAll baseDir disk3)
                             | (None, disk3) \<Rightarrow>
                                 (case zip_files env disk3 (writtenPaths st) [] of
                                    Inl e \<Rightarrow> (Inl e, os_RemoveAll baseDir disk3)
                                  | Inr entries \<Rightarrow>
                                      (case zw_Close_err env zipPath of
                                         Some e \<Rightarrow> (Inl e, os_RemoveAll baseDir disk3)
                                       | None \<Rightarrow>
                                           (case zf_Close_err env zipPath of
                                              Some e \<Rightarrow> (Inl e, os_RemoveAll baseDir disk3)
                                            | None \<Rightarrow>
                                                (Inr (zipPath, baseDir),
                                                 disk3\<lparr>files := (files disk3)
                                                    (zipPath \<mapsto> Archive entries)\<rparr>))))))))"

definition single_dir :: "os \<Rightarrow> uuid \<Rightarrow> string" where
  "single_dir env u = Join (os_TempDir env) (''single_'' @ uuid_String u)"

definition ZipBytesToTemp ::
  "os \<Rightarrow> fs \<Rightarrow> uuid \<Rightarrow> string \<Rightarrow> string \<Rightarrow> string \<Rightarrow> (error + string \<times> string) \<times> fs" where
  "ZipBytesToTemp env disk u data innerFilename0 zipFilename0 =
     (let innerFilename =
            (if Base innerFilename0 = [] \<or> Base innerFilename0 = ''.''
             then ''document'' else Base innerFilename0);
          zipFilename =
            (if Base zipFilename0 = [] \<or> Base zipFilename0 = ''.''
             then ''archive.zip'' else Base zipFilename0);
          dir = single_dir env u
      in case os_MkdirAll env disk dir of
           (Some e, disk1) \<Rightarrow> (Inl e, disk1)
         | (None, disk1) \<Rightarrow>
             (let rawPath = Join dir innerFilename
              in case os_WriteFile env disk1 rawPath data of
                   (Some e, disk2) \<Rightarrow> (Inl e, os_RemoveAll dir disk2)
                 | (None, disk2) \<Rightarrow>
                     (let zipPath = Join dir zipFilename
                      in case os_Create env disk2 zipPath of
                           (Some e, disk3) \<Rightarrow> (Inl e, os_RemoveAll dir disk3)
                         | (None, disk3) \<Rightarrow>
                             (case CreateHeader_err env innerFilename of
                                Some e \<Rightarrow> (Inl e, os_RemoveAll dir disk3)
                              | None \<Rightarrow>
                                  (let copied = (case os_Open env disk3 rawPath of
                                                   Inl e \<Rightarrow> []
                                                 | Inr b \<Rightarrow> b)
                                   in (Inr (zipPath, dir),
                                       disk3\<lparr>files := (files disk3)
                                          (zipPath \<mapsto> Archive [(innerFilename, copied)])\<rparr>))))))"

section \<open>The cleanup worker\<close>

text \<open>
  Times are nanoseconds since the epoch. \<open>time_Sub\<close> is \<open>Time.Sub\<close>: the difference as a
  \<open>Duration\<close>, a 64-bit count of nanoseconds, held at the largest or smallest duration
  when it does not fit.
\<close>

definition time_Sub :: "int \<Rightarrow> int \<Rightarrow> int64" where
  "time_Sub t u =
     (if 2 ^ 63 \<le> t - u then word_of_int (2 ^ 63 - 1)
      else if t - u < - (2 ^ 63) then word_of_int (- (2 ^ 63))
      else word_of_int (t - u))"

definition cleanupMaxAge :: int64 where
  "cleanupMaxAge = 30 * (60 * 1000000000)"

record DirEntry =
  Name :: string
  IsDir :: bool
  Info :: "error + int"

text \<open>\<open>Info\<close> is the result of \<open>e.Info()\<close>, reduced to the modification time.\<close>

datatype removal = RemoveAll string | Remove string

text \<open>The body of the loop over the entries of the directory: the call it makes, if any.\<close>

definition cleanup_entry :: "string \<Rightarrow> int \<Rightarrow> DirEntry \<Rightarrow> removal list" where
  "cleanup_entry dir now e =
     (let name = Name e;
          path = Join dir name
      in if IsDir e then
           (if HasPrefix name ''bulk_'' \<or> HasPrefix name ''single_'' then
              (case Info e of
                 Inl err \<Rightarrow> []
               | Inr modTime \<Rightarrow>
                   if sint cleanupMaxAge \<le> sint (time_Sub now modTime)
                   then [RemoveAll path] else [])
            else [])
         else if \<not> HasPrefix name ''bugchat-'' then []
         else
           (case Info e of
              Inl err \<Rightarrow> []
            | Inr modTime \<Rightarrow>
                if sint (time_Sub now modTime) < sint cleanupMaxAge then []
                else [Remove path]))"

text \<open>One tick of the worker: \<open>os.ReadDir\<close> gives the entries or fails, and the clock is
  read once.\<close>

definition cleanup_tick :: "string \<Rightarrow> error + DirEntry list \<Rightarrow> int \<Rightarrow> removal list" where
  "cleanup_tick dir readDir now =
     (case readDir of
        Inl err \<Rightarrow> []
      | Inr entries \<Rightarrow> concat (map (cleanup_entry dir now) entries))"

text \<open>\<open>StartCleanupWorker\<close> runs one tick after the other for as long as the process
  lives; over the ticks that have happened it has made these calls.\<close>

definition StartCleanupWorker :: "os \<Rightarrow> ((error + DirEntry list) \<times> int) list \<Rightarrow> removal list" where
  "StartCleanupWorker env ticks =
     concat (map (\<lambda>(readDir, now). cleanup_tick (os_TempDir env) readDir now) ticks)"

section \<open>What the claims speak of\<close>

text \<open>Nothing is left of a workspace: no directory and no file at its path or below.\<close>

definition workspace_gone :: "string \<Rightarrow> fs \<Rightarrow> bool" where
  "workspace_gone d disk = (\<forall>p. under d p \<longrightarrow> p \<notin> dirs disk \<and> files disk p = None)"


subsection \<open>The names of a batch\<close>

text \<open>The name with a counter before its extension, as the inner loop forms it.\<close>

definition with_counter :: "string \<Rightarrow> int \<Rightarrow> string" where
  "with_counter base c = suffixed (TrimSuffix base (Ext base)) (Ext base) c"

text \<open>The desired names of a batch: the sanitized name of every item, or its fallback,
  before the names in use are looked at.\<close>

definition desired :: "BulkItem list \<Rightarrow> string list" where
  "desired items = map (\<lambda>k. bulk_base k (items ! k)) [0..<length items]"

text \<open>
  The names in the words of the spec: of the items with one desired name the first keeps
  it, and the item that has \<open>m\<close> of them before it gets the counter \<open>m\<close>.
\<close>

definition spec_names :: "string list \<Rightarrow> string list" where
  "spec_names bs =
     map (\<lambda>k. let m = count_list (take k bs) (bs ! k)
              in if m = 0 then bs ! k else with_counter (bs ! k) (int m))
       [0..<length bs]"

text \<open>
  The invariant of the item loop: the names in use are distinct and none is empty, they
  are the names of the files written so far, in order, and the workspace and its parent
  are directories.
\<close>

definition bulk_inv :: "string \<Rightarrow> bulk_state \<Rightarrow> bool" where
  "bulk_inv baseDir st =
     (distinct (used st) \<and> [] \<notin> set (used st)
      \<and> map Base (writtenPaths st) = rev (used st)
      \<and> baseDir \<in> dirs (on_disk st) \<and> Join baseDir ''..'' \<in> dirs (on_disk st))"

section \<open>Example inputs\<close>

text \<open>A share link whose final response names the download host in its \<open>Location\<close>
  header, and a download host that serves six bytes without declaring a length.\<close>

definition example_share :: string where
  "example_share = ''https://disk.yandex.ru/d/x''"

definition example_direct :: string where
  "example_direct = ''https://downloader.disk.yandex.ru/disk/f''"

definition example_head :: response where
  "example_head =
     \<lparr>StatusCode = 200, ContentLength = - 1, Header = (\<lambda>k. []), Body = ([], EOF)\<rparr>"

definition example_get :: response where
  "example_get =
     \<lparr>StatusCode = 200, ContentLength = - 1, Header = (\<lambda>k. []), Body = (''abcdef'', EOF)\<rparr>"

definition example_redirect :: response where
  "example_redirect =
     \<lparr>StatusCode = 200, ContentLength = - 1,
      Header = (\<lambda>k. if k = ''Location'' then example_direct else []), Body = ([], EOF)\<rparr>"

definition example_net :: net where
  "example_net =
     \<lparr>NewRequest_err = (\<lambda>u. None),
      client_Do = (\<lambda>m u. if u = example_share then Inr example_redirect
                          else if m = HEAD then Inr example_head else Inr example_get),
      json_href = (\<lambda>t. None)\<rparr>"

text \<open>A download host whose connection breaks as the third byte arrives.\<close>

definition example_broken :: response where
  "example_broken =
     \<lparr>StatusCode = 200, ContentLength = - 1, Header = (\<lambda>k. []),
      Body = (''abc'', ErrorWithLast (External ''connection reset''))\<rparr>"

definition broken_net :: net where
  "broken_net =
     \<lparr>NewRequest_err = (\<lambda>u. None),
      client_Do = (\<lambda>m u. if m = HEAD then Inr example_head else Inr example_broken),
      json_href = (\<lambda>t. None)\<rparr>"

text \<open>A server that declares the length \<open>h\<close> on HEAD and \<open>g\<close> on GET.\<close>

definition declared :: "int64 \<Rightarrow> response" where
  "declared n =
     \<lparr>StatusCode = 200, ContentLength = n, Header = (\<lambda>k. []), Body = (''abcdef'', EOF)\<rparr>"

definition declaring_net :: "int64 \<Rightarrow> int64 \<Rightarrow> net" where
  "declaring_net h g =
     \<lparr>NewRequest_err = (\<lambda>u. None),
      client_Do = (\<lambda>m u. if m = HEAD then Inr (declared h) else Inr (declared g)),
      json_href = (\<lambda>t. None)\<rparr>"

text \<open>A Linux host with free space, where no system call fails; the link \<open>bad\<close> cannot
  be fetched and every other link delivers its own text.\<close>

definition example_os :: os where
  "example_os =
     \<lparr>GOOS = ''linux'', Statfs = (\<lambda>p. Inr (1000000, 4096)), TMPDIR = [],
      MkdirAll_err = (\<lambda>p. None), WriteFile_err = (\<lambda>p. None), Create_err = (\<lambda>p. None),
      Open_err = (\<lambda>p. None), CreateHeader_err = (\<lambda>p. None), zw_Close_err = (\<lambda>p. None),
      zf_Close_err = (\<lambda>p. None),
      fetch = (\<lambda>l. if l = ''bad'' then Inl (External ''timeout'') else Inr l)\<rparr>"

definition example_fs :: fs where
  "example_fs = \<lparr>dirs = {''/tmp''}, files = Map.empty\<rparr>"

definition example_uuid :: uuid where
  "example_uuid = [1, 2, 3, 4, 5, 6, 7, 8, 9, 10, 11, 12, 13, 14, 15, 16]"

definition example_old_dir :: DirEntry where
  "example_old_dir = \<lparr>Name = ''bulk_a'', IsDir = True, Info = Inr 0\<rparr>"

definition example_young_dir :: DirEntry where
  "example_young_dir = \<lparr>Name = ''bulk_b'', IsDir = True, Info = Inr 1\<rparr>"

text \<open>A batch with a name taken twice and an item without a name, and a batch where
  a desired name is the counter form of another.\<close>

definition example_batch :: "BulkItem list" where
  "example_batch =
     [\<lparr>URL = ''u1'', Filename = ''a.txt''\<rparr>, \<lparr>URL = ''u2'', Filename = ''a.txt''\<rparr>,
      \<lparr>URL = ''u3'', Filename = []\<rparr>]"

definition example_crossing :: "BulkItem list" where
  "example_crossing =
     [\<lparr>URL = ''u1'', Filename = ''a_1.txt''\<rparr>, \<lparr>URL = ''u2'', Filename = ''a.txt''\<rparr>,
      \<lparr>URL = ''u3'', Filename = ''a.txt''\<rparr>]"

section \<open>Properties of the downloader\<close>

subsection \<open>Arithmetic of 64-bit lengths\<close>

lemma sint_of_int64:
  "- (2 ^ 63) \<le> i \<Longrightarrow> i < 2 ^ 63 \<Longrightarrow> sint (word_of_int i :: int64) = i"
  by (simp add: sint_sbintrunc' signed_take_bit_int_eq_self)





subsection \<open>The ceiling on the wire\<close>








subsection \<open>Evaluating the examples\<close>

lemma example_Do [simp]:
  "NewRequest_err example_net u = None"
  "client_Do example_net m example_share = Inr example_redirect"
  "client_Do example_net HEAD example_direct = Inr example_head"
  "client_Do example_net GET example_direct = Inr example_get"
  by (simp_all add: example_net_def example_share_def example_direct_def)

lemma broken_Do:
  "NewRequest_err broken_net u = None"
  "client_Do broken_net HEAD u = Inr example_head"
  "client_Do broken_net GET u = Inr example_broken"
  by (simp_all add: broken_net_def)

lemma example_broken_download:
  "fst (downloadByURL broken_net \<lparr>maxSize = 2\<rparr> example_direct)
     = Inl (External ''connection reset'')"
  by (simp add: downloadByURL_def Let_def ReadAll_Limit_def broken_Do
      example_head_def example_broken_def StatusOK_def StatusFound_def)


lemma example_share_trim: "TrimSpace example_share = example_share"
  by (simp add: example_share_def TrimSpace_def TrimLeftSpace.simps TrimRightSpace.simps
      space_seqs_def HasPrefix_def HasSuffix_def)

lemma example_share_yandex: "isYandexDiskURL example_share" "example_share \<noteq> []"
  by (simp_all add: example_share_def isYandexDiskURL_def HasPrefix_def)

lemma example_location:
  "Header example_redirect ''Location'' = example_direct"
  "Contains example_direct ''downloader.disk.yandex''"
  "example_direct \<noteq> []"
  by (simp_all add: example_redirect_def example_direct_def HasPrefix_def)


lemma example_GetDirectURL:
  "GetDirectURL example_net example_share = (Inr example_direct, [Request GET example_share])"
  by (simp add: GetDirectURL_def Let_def example_share_trim example_share_yandex
      example_location)

lemma example_plain_trim: "TrimSpace '' http://example.com '' = ''http://example.com''"
  by (simp add: TrimSpace_def TrimLeftSpace.simps TrimRightSpace.simps
      space_seqs_def HasPrefix_def HasSuffix_def)

lemma example_plain_not_yandex: "\<not> isYandexDiskURL ''http://example.com''"
  by (simp add: isYandexDiskURL_def HasPrefix_def)

subsection \<open>Claims about the downloader\<close>



text \<open>
  C5. When a response that passed its status check declares a positive Content-Length
  greater than \<open>maxSize\<close>, \<open>downloadByURL\<close> fails with \<open>ErrFileTooLarge\<close> and reads no
  body byte: on the HEAD response the only network action is the HEAD request, and on the
  GET response the only actions are the two requests; no trace holds a body read.
\<close>

theorem downloadByURL_declared_length_too_large:
  "(NewRequest_err env url = None \<and> client_Do env HEAD url = Inr resp
      \<and> (StatusCode resp = StatusOK \<or> StatusCode resp = StatusFound)
      \<and> 0 < sint (ContentLength resp) \<and> sint (maxSize y) < sint (ContentLength resp)
    \<longrightarrow> downloadByURL env y url = (Inl ErrFileTooLarge, [Request HEAD url]))
   \<and> (NewRequest_err env url = None \<and> client_Do env HEAD url = Inr resp
      \<and> (StatusCode resp = StatusOK \<or> StatusCode resp = StatusFound)
      \<and> \<not> (0 < sint (ContentLength resp) \<and> sint (maxSize y) < sint (ContentLength resp))
      \<and> client_Do env GET url = Inr respGet \<and> StatusCode respGet = StatusOK
      \<and> 0 < sint (ContentLength respGet) \<and> sint (maxSize y) < sint (ContentLength respGet)
    \<longrightarrow> downloadByURL env y url
          = (Inl ErrFileTooLarge, [Request HEAD url, Request GET url]))"
  by (auto simp: downloadByURL_def Let_def)

theorem downloadByURL_declared_length_too_large_witness:
  "downloadByURL (declaring_net 10 10) \<lparr>maxSize = 3\<rparr> example_direct
     = (Inl ErrFileTooLarge, [Request HEAD example_direct])
   \<and> downloadByURL (declaring_net (- 1) 10) \<lparr>maxSize = 3\<rparr> example_direct
     = (Inl ErrFileTooLarge, [Request HEAD example_direct, Request GET example_direct])"
proof -
  have h1: "NewRequest_err (declaring_net 10 10) example_direct = None
      \<and> client_Do (declaring_net 10 10) HEAD example_direct = Inr (declared 10)
      \<and> (StatusCode (declared 10) = StatusOK \<or> StatusCode (declared 10) = StatusFound)
      \<and> 0 < sint (ContentLength (declared 10))
      \<and> sint (maxSize \<lparr>maxSize = 3\<rparr>) < sint (ContentLength (declared 10))"
    by (simp add: declaring_net_def declared_def StatusOK_def)
  have h2: "NewRequest_err (declaring_net (- 1) 10) example_direct = None
      \<and> client_Do (declaring_net (- 1) 10) HEAD example_direct = Inr (declared (- 1))
      \<and> (StatusCode (declared (- 1)) = StatusOK \<or> StatusCode (declared (- 1)) = StatusFound)
      \<and> \<not> (0 < sint (ContentLength (declared (- 1)))
           \<and> sint (maxSize \<lparr>maxSize = 3\<rparr>) < sint (ContentLength (declared (- 1))))
      \<and> client_Do (declaring_net (- 1) 10) GET example_direct = Inr (declared 10)
      \<and> StatusCode (declared 10) = StatusOK
      \<and> 0 < sint (ContentLength (declared 10))
      \<and> sint (maxSize \<lparr>maxSize = 3\<rparr>) < sint (ContentLength (declared 10))"
    by (simp add: declaring_net_def declared_def StatusOK_def)
  from h1 h2
    downloadByURL_declared_length_too_large
      [of "declaring_net 10 10" example_direct "declared 10" "\<lparr>maxSize = 3\<rparr>"]
    downloadByURL_declared_length_too_large
      [of "declaring_net (- 1) 10" example_direct "declared (- 1)" "\<lparr>maxSize = 3\<rparr>"
          "declared 10"]
  show ?thesis by blast
qed

text \<open>
  C7. When the size probe \<open>GetFileSize\<close> resolves a share link and its HEAD round trip
  completes with status 200 or 302 but the response carries no usable Content-Length
  (Go reports a negative length), the probe returns -1 and no error.
\<close>

theorem GetFileSize_unknown_length:
  "TrimSpace shareURL \<noteq> [] \<and> isYandexDiskURL (TrimSpace shareURL)
     \<and> GetDirectURL env (TrimSpace shareURL) = (Inr direct, tr)
     \<and> NewRequest_err env direct = None
     \<and> client_Do env HEAD direct = Inr resp
     \<and> (StatusCode resp = StatusOK \<or> StatusCode resp = StatusFound)
     \<and> sint (ContentLength resp) < 0
   \<longrightarrow> fst (GetFileSize env shareURL) = Inr (- 1)"
  by (auto simp: GetFileSize_def Let_def)

theorem GetFileSize_unknown_length_witness:
  "fst (GetFileSize example_net example_share) = Inr (- 1)"
proof -
  have "TrimSpace example_share \<noteq> [] \<and> isYandexDiskURL (TrimSpace example_share)
     \<and> GetDirectURL example_net (TrimSpace example_share)
         = (Inr example_direct, [Request GET example_share])
     \<and> NewRequest_err example_net example_direct = None
     \<and> client_Do example_net HEAD example_direct = Inr example_head
     \<and> (StatusCode example_head = StatusOK \<or> StatusCode example_head = StatusFound)
     \<and> sint (ContentLength example_head) < 0"
    by (simp add: example_share_trim example_share_yandex example_GetDirectURL
        example_head_def StatusOK_def)
  with GetFileSize_unknown_length
      [of example_share example_net example_direct "[Request GET example_share]" example_head]
  show ?thesis by blast
qed

text \<open>
  C3, as the code has it. \<open>GetDirectURL\<close> first trims the white space around its input.
  When the trimmed input is not empty and contains neither \<open>disk.yandex.ru\<close> nor
  \<open>disk.yandex.com\<close> anywhere in it, the trimmed input is returned as the direct URL and
  nothing is done on the network.
\<close>

theorem GetDirectURL_pass_through:
  "TrimSpace shareURL \<noteq> [] \<and> \<not> isYandexDiskURL (TrimSpace shareURL)
   \<longrightarrow> GetDirectURL env shareURL = (Inr (TrimSpace shareURL), [])"
  by (simp add: GetDirectURL_def Let_def)

theorem GetDirectURL_pass_through_witness:
  "GetDirectURL example_net '' http://example.com '' = (Inr ''http://example.com'', [])"
proof -
  have "TrimSpace '' http://example.com '' \<noteq> []
      \<and> \<not> isYandexDiskURL (TrimSpace '' http://example.com '')"
    by (simp add: example_plain_trim example_plain_not_yandex)
  with GetDirectURL_pass_through [of "'' http://example.com ''" example_net]
  show ?thesis by (simp add: example_plain_trim)
qed

text \<open>
  C3 as stated fails twice. An input with white space around it is not returned
  unchanged; and a link whose host is \<open>example.com\<close> but whose query holds the text
  \<open>disk.yandex.ru\<close> is classified as a share link, so a request is sent.
\<close>

theorem GetDirectURL_unchanged_counterexample:
  "fst (GetDirectURL example_net '' http://example.com '') \<noteq> Inr '' http://example.com ''
   \<and> Request GET ''http://example.com/?from=disk.yandex.ru''
       \<in> set (snd (GetDirectURL example_net ''http://example.com/?from=disk.yandex.ru''))"
proof -
  have a: "GetDirectURL example_net '' http://example.com '' = (Inr ''http://example.com'', [])"
    by (simp add: GetDirectURL_def Let_def example_plain_trim example_plain_not_yandex)
  have t: "TrimSpace ''http://example.com/?from=disk.yandex.ru''
      = ''http://example.com/?from=disk.yandex.ru''"
    by (simp add: TrimSpace_def TrimLeftSpace.simps TrimRightSpace.simps
        space_seqs_def HasPrefix_def HasSuffix_def)
  have y: "isYandexDiskURL ''http://example.com/?from=disk.yandex.ru''"
    by (simp add: isYandexDiskURL_def HasPrefix_def)
  have d: "client_Do example_net GET ''http://example.com/?from=disk.yandex.ru''
      = Inr example_get"
    by (simp add: example_net_def example_share_def)
  have h: "Header example_get ''Location'' = []"
    by (simp add: example_get_def)
  have b: "Request GET ''http://example.com/?from=disk.yandex.ru''
       \<in> set (snd (GetDirectURL example_net ''http://example.com/?from=disk.yandex.ru''))"
    unfolding GetDirectURL_def t Let_def
    by (simp add: y d h split: prod.splits option.splits)
  from a b show ?thesis by simp
qed

section \<open>Properties of paths\<close>

lemma split_slash_nonempty [simp]: "split_slash s \<noteq> []"
  by (induction s) (auto split: list.splits)

lemma split_slash_append:
  "split_slash (a @ CHR ''/'' # b) = split_slash a @ split_slash b"
  by (induction a) (auto split: list.splits)

lemma split_slash_plain: "CHR ''/'' \<notin> set a \<Longrightarrow> split_slash a = [a]"
  by (induction a) auto

lemma split_slash_no_slash: "c \<in> set (split_slash s) \<Longrightarrow> CHR ''/'' \<notin> set c"
proof (induction s arbitrary: c)
  case Nil
  then show ?case by simp
next
  case (Cons x xs)
  then show ?case
    by (cases "split_slash xs") (auto split: if_splits)
qed

lemma split_join_slash:
  "out \<noteq> [] \<Longrightarrow> \<forall>c \<in> set out. CHR ''/'' \<notin> set c \<Longrightarrow> split_slash (join_slash out) = out"
proof (induction out rule: join_slash.induct)
  case 1
  then show ?case by simp
next
  case (2 c)
  then show ?case by (simp add: split_slash_plain)
next
  case (3 c d cs)
  then show ?case by (simp add: split_slash_append split_slash_plain)
qed

lemma join_slash_snoc:
  "join_slash (xs @ [n]) = (if xs = [] then n else join_slash xs @ CHR ''/'' # n)"
  by (induction xs rule: join_slash.induct) auto

text \<open>The stack of \<open>Clean\<close> in normal form: names only, except for a run of \<open>..\<close> at the
  bottom of the stack of a relative path.\<close>

fun clean_nf :: "bool \<Rightarrow> string list \<Rightarrow> bool" where
  "clean_nf r [] = True"
| "clean_nf r (t # ts) =
     (t \<noteq> [] \<and> t \<noteq> ''.'' \<and> CHR ''/'' \<notin> set t
      \<and> (t = ''..'' \<longrightarrow> \<not> r \<and> (ts = [] \<or> hd ts = ''..''))
      \<and> clean_nf r ts)"

lemma clean_step_nf:
  "clean_nf r st \<Longrightarrow> CHR ''/'' \<notin> set c \<Longrightarrow> clean_nf r (clean_step r st c)"
  by (cases st) (auto simp: clean_step_def)

lemma clean_fold_nf:
  "clean_nf r st \<Longrightarrow> \<forall>c \<in> set cs. CHR ''/'' \<notin> set c
     \<Longrightarrow> clean_nf r (foldl (clean_step r) st cs)"
  by (induction cs arbitrary: st) (auto simp: clean_step_nf)

lemma clean_step_replay: "clean_nf r (t # ts) \<Longrightarrow> clean_step r ts t = t # ts"
  by (cases ts) (auto simp: clean_step_def)

lemma clean_fold_replay: "clean_nf r st \<Longrightarrow> foldl (clean_step r) [] (rev st) = st"
proof (induction st)
  case Nil
  then show ?case by simp
next
  case (Cons t ts)
  then have "foldl (clean_step r) [] (rev ts) = ts" by simp
  then show ?case using Cons.prems by (simp add: clean_step_replay del: clean_nf.simps)
qed

lemma clean_nf_rev_no_slash: "clean_nf r st \<Longrightarrow> \<forall>c \<in> set (rev st). CHR ''/'' \<notin> set c"
  by (induction st) auto

lemma clean_nf_last_nonempty: "clean_nf r st \<Longrightarrow> st \<noteq> [] \<Longrightarrow> hd (rev st) \<noteq> []"
  by (induction st) (auto simp: hd_append)

lemma join_slash_hd:
  "out \<noteq> [] \<Longrightarrow> hd out \<noteq> [] \<Longrightarrow> hd (join_slash out) = hd (hd out)"
  by (induction out rule: join_slash.induct) auto

lemma join_slash_nonempty: "out \<noteq> [] \<Longrightarrow> hd out \<noteq> [] \<Longrightarrow> join_slash out \<noteq> []"
  by (induction out rule: join_slash.induct) auto

lemma clean_render_nonempty: "clean_nf r st \<Longrightarrow> clean_render r st \<noteq> []"
proof (cases "st = []")
  case True
  then show ?thesis by (simp add: clean_render_def)
next
  case False
  assume nf: "clean_nf r st"
  from nf False have "hd (rev st) \<noteq> []" by (rule clean_nf_last_nonempty)
  with False have "join_slash (rev st) \<noteq> []" by (intro join_slash_nonempty) auto
  then show ?thesis by (simp add: clean_render_def)
qed

lemma clean_render_rooted:
  assumes nf: "clean_nf r st"
  shows "(hd (clean_render r st) = CHR ''/'') = r"
proof (cases r)
  case True
  then show ?thesis by (simp add: clean_render_def)
next
  case rel: False
  show ?thesis
  proof (cases "st = []")
    case True
    with rel show ?thesis by (simp add: clean_render_def)
  next
    case False
    then have ne: "rev st \<noteq> []" by simp
    have hdne: "hd (rev st) \<noteq> []" using nf False by (rule clean_nf_last_nonempty)
    have "hd (rev st) \<in> set (rev st)" using ne by (rule hd_in_set)
    then have "CHR ''/'' \<notin> set (hd (rev st))"
      using clean_nf_rev_no_slash [OF nf] by blast
    with hdne have "hd (hd (rev st)) \<noteq> CHR ''/''"
      by (cases "hd (rev st)") auto
    moreover have "hd (join_slash (rev st)) = hd (hd (rev st))"
      using ne hdne by (rule join_slash_hd)
    ultimately show ?thesis using rel False by (simp add: clean_render_def)
  qed
qed

lemma clean_render_replay:
  assumes nf: "clean_nf r st"
  shows "foldl (clean_step r) [] (split_slash (clean_render r st)) = st"
proof (cases "st = []")
  case True
  then show ?thesis by (cases r) (simp_all add: clean_render_def clean_step_def)
next
  case False
  then have ne: "rev st \<noteq> []" by simp
  have sp: "split_slash (join_slash (rev st)) = rev st"
    using ne clean_nf_rev_no_slash [OF nf] by (rule split_join_slash)
  have replay: "foldl (clean_step r) [] (rev st) = st"
    using nf by (rule clean_fold_replay)
  show ?thesis
  proof (cases r)
    case True
    have "split_slash (clean_render r st) = [] # rev st"
      using True sp by (simp add: clean_render_def)
    then show ?thesis using replay by (simp add: clean_step_def)
  next
    case rel: False
    have "split_slash (clean_render r st) = rev st"
      using rel False sp by (simp add: clean_render_def)
    then show ?thesis using replay by simp
  qed
qed

lemma Clean_fold_nf:
  "clean_nf r (foldl (clean_step r) [] (split_slash p))"
  by (rule clean_fold_nf) (auto dest: split_slash_no_slash)

lemma Clean_nonempty [simp]: "Clean p \<noteq> []"
  by (simp add: Clean_def Let_def clean_render_nonempty [OF Clean_fold_nf])

text \<open>\<open>Clean\<close> leaves a path in normal form as it is.\<close>

lemma Clean_render: "clean_nf r st \<Longrightarrow> Clean (clean_render r st) = clean_render r st"
  by (simp add: Clean_def Let_def clean_render_nonempty clean_render_rooted
      clean_render_replay)

lemma Clean_idem: "Clean (Clean p) = Clean p"
proof (cases "p = []")
  case True
  then show ?thesis by (simp add: Clean_def clean_step_def clean_render_def)
next
  case False
  then show ?thesis
    using Clean_render [OF Clean_fold_nf, of "hd p = CHR ''/''" p]
    by (simp add: Clean_def Let_def)
qed

text \<open>Joining \<open>/\<close> or \<open>.\<close> to a cleaned path gives the path back.\<close>

lemma clean_fold_skip:
  "\<forall>c \<in> set es. c = [] \<or> c = ''.'' \<Longrightarrow> foldl (clean_step r) st es = st"
  by (induction es arbitrary: st) (auto simp: clean_step_def)

lemma Clean_append_skip:
  assumes "p \<noteq> []" and "\<forall>c \<in> set (split_slash e). c = [] \<or> c = ''.''"
  shows "Clean (p @ CHR ''/'' # e) = Clean p"
proof -
  have "hd (p @ CHR ''/'' # e) = hd p" using assms(1) by simp
  then show ?thesis
    using assms by (simp add: Clean_def Let_def split_slash_append clean_fold_skip)
qed

lemma Join_Clean_skip:
  assumes "\<forall>c \<in> set (split_slash e). c = [] \<or> c = ''.''"
  shows "Join (Clean p) e = Clean p"
  using Clean_append_skip [OF Clean_nonempty assms, of p]
  by (simp add: Join_def Clean_idem)

lemma Join_Join_slash: "a \<noteq> [] \<Longrightarrow> Join (Join a b) ''/'' = Join a b"
  using Join_Clean_skip [of "''/''" "a @ ''/'' @ b"] by (simp add: Join_def)

lemma Join_Join_dot: "a \<noteq> [] \<Longrightarrow> Join (Join a b) ''.'' = Join a b"
  using Join_Clean_skip [of "''.''" "a @ ''/'' @ b"] by (simp add: Join_def)

text \<open>A name: an element that \<open>Clean\<close> keeps as it is.\<close>

lemma Base_after_slash:
  "n \<noteq> [] \<Longrightarrow> CHR ''/'' \<notin> set n \<Longrightarrow> Base (x @ CHR ''/'' # n) = n"
proof -
  assume ne: "n \<noteq> []" and ns: "CHR ''/'' \<notin> set n"
  then have l: "last n \<noteq> CHR ''/''" by (metis last_in_set)
  have d: "dropWhile (\<lambda>c. c = CHR ''/'') (rev n @ CHR ''/'' # rev x) = rev n @ CHR ''/'' # rev x"
    using ne l by (cases n rule: rev_cases) auto
  have t: "takeWhile (\<lambda>c. c \<noteq> CHR ''/'') (rev n @ CHR ''/'' # rev x) = rev n"
    using ns by (simp add: takeWhile_append)
  show ?thesis by (simp add: Base_def Let_def d t ne)
qed

lemma Base_plain: "n \<noteq> [] \<Longrightarrow> CHR ''/'' \<notin> set n \<Longrightarrow> Base n = n"
proof -
  assume ne: "n \<noteq> []" and ns: "CHR ''/'' \<notin> set n"
  then have l: "last n \<noteq> CHR ''/''" by (metis last_in_set)
  have d: "dropWhile (\<lambda>c. c = CHR ''/'') (rev n) = rev n"
    using ne l by (cases n rule: rev_cases) auto
  have "\<forall>c \<in> set (rev n). c \<noteq> CHR ''/''" using ns by auto
  then have t: "takeWhile (\<lambda>c. c \<noteq> CHR ''/'') (rev n) = rev n"
    by (simp add: takeWhile_eq_all_conv)
  show ?thesis by (simp add: Base_def Let_def d t ne)
qed

lemma Clean_snoc_name:
  assumes "a \<noteq> []" and "plain_name n"
  shows "\<exists>st. Clean (a @ CHR ''/'' # n)
           = clean_render (hd a = CHR ''/'') (n # st)"
proof -
  have h: "hd (a @ CHR ''/'' # n) = hd a" using assms(1) by simp
  have s: "split_slash (a @ CHR ''/'' # n) = split_slash a @ [n]"
    using assms(2) by (simp add: split_slash_append split_slash_plain plain_name_def)
  have "clean_step (hd a = CHR ''/'') st n = n # st" for st
    using assms(2) by (simp add: clean_step_def plain_name_def)
  then have "Clean (a @ CHR ''/'' # n)
      = clean_render (hd a = CHR ''/'')
          (n # foldl (clean_step (hd a = CHR ''/'')) [] (split_slash a))"
    using h s by (simp add: Clean_def Let_def)
  then show ?thesis by (rule exI)
qed

lemma Base_Join_name:
  assumes "a \<noteq> []" and "plain_name n"
  shows "Base (Join a n) = n"
proof -
  from Clean_snoc_name [OF assms] obtain st where
    c: "Clean (a @ CHR ''/'' # n) = clean_render (hd a = CHR ''/'') (n # st)" by blast
  have n: "n \<noteq> []" "CHR ''/'' \<notin> set n" using assms(2) by (simp_all add: plain_name_def)
  have j: "join_slash (rev st @ [n])
      = (if rev st = [] then n else join_slash (rev st) @ CHR ''/'' # n)"
    by (rule join_slash_snoc)
  have "Base (clean_render r (n # st)) = n" for r
  proof (cases "st = []")
    case True
    then show ?thesis
      using n Base_plain [of n] Base_after_slash [of n "[]"]
      by (simp add: clean_render_def)
  next
    case False
    then show ?thesis
      using n j Base_after_slash [of n "join_slash (rev st)"]
        Base_after_slash [of n "CHR ''/'' # join_slash (rev st)"]
      by (simp add: clean_render_def)
  qed
  then show ?thesis using assms(1) c by (simp add: Join_def)
qed


section \<open>Properties of the cleanup worker\<close>

lemma sint_cleanupMaxAge: "sint cleanupMaxAge = 1800000000000"
  by (simp add: cleanupMaxAge_def)

lemma time_Sub_old: "(sint cleanupMaxAge \<le> sint (time_Sub now t)) = (1800000000000 \<le> now - t)"
proof -
  have a: "sint (word_of_int (2 ^ 63 - 1) :: int64) = 2 ^ 63 - 1"
    by (rule sint_of_int64) simp_all
  have b: "sint (word_of_int (- (2 ^ 63)) :: int64) = - (2 ^ 63)"
    by (rule sint_of_int64) simp_all
  show ?thesis
  proof (cases "2 ^ 63 \<le> now - t")
    case True
    then show ?thesis using a by (simp add: time_Sub_def sint_cleanupMaxAge)
  next
    case hi: False
    show ?thesis
    proof (cases "now - t < - (2 ^ 63)")
      case True
      then show ?thesis using b hi by (simp add: time_Sub_def sint_cleanupMaxAge)
    next
      case False
      with hi have "sint (word_of_int (now - t) :: int64) = now - t"
        by (intro sint_of_int64) simp_all
      then show ?thesis using hi False by (simp add: time_Sub_def sint_cleanupMaxAge)
    qed
  qed
qed

lemma time_Sub_young: "(sint (time_Sub now t) < sint cleanupMaxAge) = (now - t < 1800000000000)"
  using time_Sub_old [of now t] by linarith

lemma cleanup_entry_cases:
  "cleanup_entry dir now e =
     (case Info e of
        Inl err \<Rightarrow> []
      | Inr t \<Rightarrow>
          if 1800000000000 \<le> now - t then
            (if IsDir e then
               (if HasPrefix (Name e) ''bulk_'' \<or> HasPrefix (Name e) ''single_''
                then [RemoveAll (Join dir (Name e))] else [])
             else if HasPrefix (Name e) ''bugchat-'' then [Remove (Join dir (Name e))] else [])
          else [])"
  by (simp add: cleanup_entry_def Let_def time_Sub_old time_Sub_young not_less split: sum.splits)

text \<open>
  C6. On a tick, the sweep calls \<open>RemoveAll\<close> only on a directory of the temporary-file
  root whose name starts with \<open>bulk_\<close> or \<open>single_\<close>, and \<open>Remove\<close> only on a file whose
  name starts with \<open>bugchat-\<close>, and in both cases only when the entry's age, the clock
  minus its modification time, has reached the 30 minutes of the retention window
  (1800000000000 nanoseconds). An entry younger than the window is never deleted. An
  entry that matches, whose \<open>Info\<close> can be read and whose age has reached the window is
  deleted by the sweep that lists it. A tick whose \<open>ReadDir\<close> fails deletes nothing, and
  the worker makes no other calls than those of its ticks.
\<close>

theorem cleanup_sweep_removes_old_workspaces_only:
  "(r \<in> set (cleanup_tick dir (Inr entries) now) \<longrightarrow>
      (\<exists>e \<in> set entries. \<exists>t. Info e = Inr t \<and> 1800000000000 \<le> now - t
         \<and> ((IsDir e \<and> (HasPrefix (Name e) ''bulk_'' \<or> HasPrefix (Name e) ''single_'')
               \<and> r = RemoveAll (Join dir (Name e)))
            \<or> (\<not> IsDir e \<and> HasPrefix (Name e) ''bugchat-''
               \<and> r = Remove (Join dir (Name e))))))
   \<and> (Info e = Inr t \<and> now - t < 1800000000000 \<longrightarrow> cleanup_entry dir now e = [])
   \<and> (e \<in> set entries \<and> Info e = Inr t \<and> 1800000000000 \<le> now - t \<and> IsDir e
        \<and> (HasPrefix (Name e) ''bulk_'' \<or> HasPrefix (Name e) ''single_'')
      \<longrightarrow> RemoveAll (Join dir (Name e)) \<in> set (cleanup_tick dir (Inr entries) now))
   \<and> (e \<in> set entries \<and> Info e = Inr t \<and> 1800000000000 \<le> now - t \<and> \<not> IsDir e
        \<and> HasPrefix (Name e) ''bugchat-''
      \<longrightarrow> Remove (Join dir (Name e)) \<in> set (cleanup_tick dir (Inr entries) now))
   \<and> cleanup_tick dir (Inl err) now = []
   \<and> (r \<in> set (StartCleanupWorker env ticks) \<longleftrightarrow>
        (\<exists>(readDir, now') \<in> set ticks. r \<in> set (cleanup_tick (os_TempDir env) readDir now')))"
proof (intro conjI impI)
  assume "r \<in> set (cleanup_tick dir (Inr entries) now)"
  then obtain e where e: "e \<in> set entries" and r: "r \<in> set (cleanup_entry dir now e)"
    by (auto simp: cleanup_tick_def)
  from r have "\<exists>t. Info e = Inr t \<and> 1800000000000 \<le> now - t
         \<and> ((IsDir e \<and> (HasPrefix (Name e) ''bulk_'' \<or> HasPrefix (Name e) ''single_'')
               \<and> r = RemoveAll (Join dir (Name e)))
            \<or> (\<not> IsDir e \<and> HasPrefix (Name e) ''bugchat-''
               \<and> r = Remove (Join dir (Name e))))"
    by (cases "Info e") (auto simp: cleanup_entry_cases split: if_splits)
  with e show "\<exists>e \<in> set entries. \<exists>t. Info e = Inr t \<and> 1800000000000 \<le> now - t
         \<and> ((IsDir e \<and> (HasPrefix (Name e) ''bulk_'' \<or> HasPrefix (Name e) ''single_'')
               \<and> r = RemoveAll (Join dir (Name e)))
            \<or> (\<not> IsDir e \<and> HasPrefix (Name e) ''bugchat-''
               \<and> r = Remove (Join dir (Name e))))"
    by blast
next
  assume "Info e = Inr t \<and> now - t < 1800000000000"
  then show "cleanup_entry dir now e = []"
    by (simp add: cleanup_entry_cases)
next
  assume a: "e \<in> set entries \<and> Info e = Inr t \<and> 1800000000000 \<le> now - t \<and> IsDir e
        \<and> (HasPrefix (Name e) ''bulk_'' \<or> HasPrefix (Name e) ''single_'')"
  then have "RemoveAll (Join dir (Name e)) \<in> set (cleanup_entry dir now e)"
    by (auto simp: cleanup_entry_cases)
  with a show "RemoveAll (Join dir (Name e)) \<in> set (cleanup_tick dir (Inr entries) now)"
    by (auto simp: cleanup_tick_def)
next
  assume a: "e \<in> set entries \<and> Info e = Inr t \<and> 1800000000000 \<le> now - t \<and> \<not> IsDir e
        \<and> HasPrefix (Name e) ''bugchat-''"
  then have "Remove (Join dir (Name e)) \<in> set (cleanup_entry dir now e)"
    by (auto simp: cleanup_entry_cases)
  with a show "Remove (Join dir (Name e)) \<in> set (cleanup_tick dir (Inr entries) now)"
    by (auto simp: cleanup_tick_def)
next
  show "cleanup_tick dir (Inl err) now = []"
    by (simp add: cleanup_tick_def)
next
  show "r \<in> set (StartCleanupWorker env ticks) \<longleftrightarrow>
        (\<exists>(readDir, now') \<in> set ticks. r \<in> set (cleanup_tick (os_TempDir env) readDir now'))"
    by (auto simp: StartCleanupWorker_def)
qed

theorem cleanup_sweep_removes_old_workspaces_only_witness:
  "cleanup_tick ''/tmp'' (Inr [example_old_dir, example_young_dir]) 1800000000000
     = [RemoveAll ''/tmp/bulk_a'']
   \<and> cleanup_entry ''/tmp'' 1800000000000 example_young_dir = []
   \<and> RemoveAll ''/tmp/bulk_a''
       \<in> set (StartCleanupWorker example_os
                [(Inr [example_old_dir, example_young_dir], 1800000000000)])"
proof -
  let ?es = "[example_old_dir, example_young_dir]"
  have j: "Join ''/tmp'' (Name example_old_dir) = ''/tmp/bulk_a''"
    by (simp add: example_old_dir_def Join_def Clean_def clean_step_def clean_render_def)
  have t: "cleanup_tick ''/tmp'' (Inr ?es) 1800000000000 = [RemoveAll ''/tmp/bulk_a'']"
    by (simp add: cleanup_tick_def cleanup_entry_cases example_old_dir_def
        example_young_dir_def HasPrefix_def j [unfolded example_old_dir_def, simplified])
  have old: "example_old_dir \<in> set ?es \<and> Info example_old_dir = Inr 0
      \<and> (1800000000000 :: int) \<le> 1800000000000 - 0 \<and> IsDir example_old_dir
      \<and> (HasPrefix (Name example_old_dir) ''bulk_''
          \<or> HasPrefix (Name example_old_dir) ''single_'')"
    by (simp add: example_old_dir_def HasPrefix_def)
  have young: "Info example_young_dir = Inr 1 \<and> (1800000000000 :: int) - 1 < 1800000000000"
    by (simp add: example_young_dir_def)
  have tmp: "os_TempDir example_os = ''/tmp''"
    by (simp add: os_TempDir_def example_os_def)
  note c6 = cleanup_sweep_removes_old_workspaces_only
      [of "RemoveAll ''/tmp/bulk_a''" "''/tmp''" ?es 1800000000000 example_old_dir 0]
  from c6 old j have m: "RemoveAll ''/tmp/bulk_a'' \<in> set (cleanup_tick ''/tmp'' (Inr ?es) 1800000000000)"
    by simp
  from cleanup_sweep_removes_old_workspaces_only
      [of _ "''/tmp''" _ 1800000000000 example_young_dir 1] young
  have y: "cleanup_entry ''/tmp'' 1800000000000 example_young_dir = []"
    by blast
  from cleanup_sweep_removes_old_workspaces_only
      [of "RemoveAll ''/tmp/bulk_a''" _ _ _ _ _ _ example_os
          "[(Inr ?es, 1800000000000)]"] m tmp
  have w: "RemoveAll ''/tmp/bulk_a''
       \<in> set (StartCleanupWorker example_os [(Inr ?es, 1800000000000)])"
    by simp
  from t y w show ?thesis by simp
qed

section \<open>Properties of the free-space precondition\<close>





section \<open>Properties of the archive builders\<close>

subsection \<open>Cleanup on failure\<close>

lemma under_self [simp]: "under d d"
  by (simp add: under_def)

lemma RemoveAll_gone [simp]: "workspace_gone d (os_RemoveAll d disk)"
  by (simp add: workspace_gone_def os_RemoveAll_def)

lemma bulk_step_failure:
  "bulk_step env y d maxArchiveBytes i it st = Inl (e, disk') \<Longrightarrow> workspace_gone d disk'"
  by (auto simp: bulk_step_def Let_def split: prod.splits sum.splits if_splits)

lemma bulk_items_failure:
  "bulk_items env y d maxArchiveBytes i items st = Inl (e, disk') \<Longrightarrow> workspace_gone d disk'"
proof (induction items arbitrary: i st)
  case Nil
  then show ?case by simp
next
  case (Cons it items)
  show ?case
  proof (cases "bulk_step env y d maxArchiveBytes i it st")
    case (Inl failure)
    with Cons.prems have "bulk_step env y d maxArchiveBytes i it st = Inl (e, disk')" by simp
    then show ?thesis by (rule bulk_step_failure)
  next
    case (Inr st')
    with Cons.prems have "bulk_items env y d maxArchiveBytes (Suc i) items st' = Inl (e, disk')"
      by simp
    then show ?thesis by (rule Cons.IH)
  qed
qed

lemma BulkDownloadAndZip_failure:
  assumes "BulkDownloadAndZip env disk u yandex items categoryName maxArchiveBytes minFreeBytes
             = (Inl e, disk')"
  shows "if yandex \<noteq> None \<and> items \<noteq> []
            \<and> \<not> getFreeSpaceBytes env (os_TempDir env) < minFreeBytes
            \<and> MkdirAll_err env (bulk_dir env u) = None
         then workspace_gone (bulk_dir env u) disk' else disk' = disk"
proof (cases "yandex \<noteq> None \<and> items \<noteq> []
            \<and> \<not> getFreeSpaceBytes env (os_TempDir env) < minFreeBytes
            \<and> MkdirAll_err env (bulk_dir env u) = None")
  case False
  with assms have "disk' = disk"
    by (auto simp: BulkDownloadAndZip_def os_MkdirAll_def Let_def
        split: option.splits if_splits)
  with False show ?thesis by auto
next
  case True
  then obtain y where y: "yandex = Some y" by auto
  let ?d = "bulk_dir env u"
  let ?disk1 = "disk\<lparr>dirs := dirs disk \<union> {?d, Join ?d ''..''}\<rparr>"
  let ?st0 = "\<lparr>used = [], writtenPaths = [], total = 0, on_disk = ?disk1\<rparr>"
  have "workspace_gone ?d disk'"
  proof (cases "bulk_items env y ?d maxArchiveBytes 0 items ?st0")
    case (Inl failure)
    obtain e2 disk2 where f: "failure = (e2, disk2)" by (cases failure)
    with Inl assms True y have "disk2 = disk'"
      by (simp add: BulkDownloadAndZip_def os_MkdirAll_def Let_def)
    with Inl f show ?thesis by (auto dest: bulk_items_failure)
  next
    case (Inr st)
    with assms True y show ?thesis
      by (auto simp: BulkDownloadAndZip_def os_MkdirAll_def Let_def
          split: option.splits prod.splits sum.splits)
  qed
  with True show ?thesis by simp
qed

lemma ZipBytesToTemp_failure:
  assumes "ZipBytesToTemp env disk u data innerFilename zipFilename = (Inl e, disk')"
  shows "if MkdirAll_err env (single_dir env u) = None
         then workspace_gone (single_dir env u) disk' else disk' = disk"
  using assms
  by (auto simp: ZipBytesToTemp_def os_MkdirAll_def Let_def
      split: option.splits prod.splits)

text \<open>
  C2. When an archive builder returns an error after it has created its workspace
  directory (the checks before \<open>MkdirAll\<close> passed and \<open>MkdirAll\<close> succeeded), the file
  system it leaves holds no directory and no file at the path of the workspace or
  below it: every such return runs \<open>os.RemoveAll\<close> on the workspace first. When the
  error comes before the directory is created, the file system is as it was.
\<close>

theorem builders_remove_workspace_on_failure:
  "(BulkDownloadAndZip env disk u yandex items categoryName maxArchiveBytes minFreeBytes
      = (Inl e, disk')
    \<longrightarrow> (if yandex \<noteq> None \<and> items \<noteq> []
             \<and> \<not> getFreeSpaceBytes env (os_TempDir env) < minFreeBytes
             \<and> MkdirAll_err env (bulk_dir env u) = None
          then workspace_gone (bulk_dir env u) disk' else disk' = disk))
   \<and> (ZipBytesToTemp env disk u data innerFilename zipFilename = (Inl e, disk')
    \<longrightarrow> (if MkdirAll_err env (single_dir env u) = None
          then workspace_gone (single_dir env u) disk' else disk' = disk))"
  using BulkDownloadAndZip_failure ZipBytesToTemp_failure by blast

subsection \<open>Evaluating the examples\<close>

lemma os_TempDir_nonempty [simp]: "os_TempDir env \<noteq> []"
  by (simp add: os_TempDir_def)

lemma example_TempDir: "os_TempDir example_os = ''/tmp''"
  by (simp add: os_TempDir_def example_os_def)

lemma example_uuid_String: "uuid_String example_uuid = ''01020304-0506-0708-090a-0b0c0d0e0f10''"
  by (simp add: uuid_String_def example_uuid_def hex_encode_def lowerhex_def)

lemma example_bulk_dir:
  "bulk_dir example_os example_uuid = ''/tmp/bulk_01020304-0506-0708-090a-0b0c0d0e0f10''"
  by (simp add: bulk_dir_def example_TempDir example_uuid_String Join_def Clean_def
      clean_step_def clean_render_def)


lemma example_enough_space: "\<not> getFreeSpaceBytes example_os (os_TempDir example_os) < 50"
  by (simp add: getFreeSpaceBytes_def example_os_def)

lemma single_dir_slash: "Join (single_dir env u) ''/'' = single_dir env u"
  by (simp add: single_dir_def Join_Join_slash)

lemma bulk_dir_dot: "Join (bulk_dir env u) ''.'' = bulk_dir env u"
  by (simp add: bulk_dir_def Join_Join_dot)

lemma Base_slash: "Base ''/'' = ''/''"
  by (simp add: Base_def)

lemma example_bulk_failure:
  "fst (BulkDownloadAndZip example_os example_fs example_uuid (Some \<lparr>maxSize = 100\<rparr>)
         [\<lparr>URL = ''bad'', Filename = ''a.txt''\<rparr>] ''docs'' 100 50)
     = Inl (External ''timeout'')"
proof -
  have f: "fetch example_os ''bad'' = Inl (External ''timeout'')"
    by (simp add: example_os_def)
  have m: "MkdirAll_err example_os p = None" for p
    by (simp add: example_os_def)
  show ?thesis
    by (simp add: BulkDownloadAndZip_def example_enough_space os_MkdirAll_def m
        bulk_step_def DownloadToFile_def f Let_def)
qed

lemma example_single_failure:
  "fst (ZipBytesToTemp example_os example_fs example_uuid ''data'' ''/'' ''z.zip'')
     = Inl (External ''is a directory'')"
proof -
  have m: "MkdirAll_err example_os p = None" for p
    by (simp add: example_os_def)
  show ?thesis
    by (simp add: ZipBytesToTemp_def os_MkdirAll_def m Base_slash single_dir_slash
        os_WriteFile_def Let_def)
qed

theorem builders_remove_workspace_on_failure_witness:
  "fst (BulkDownloadAndZip example_os example_fs example_uuid (Some \<lparr>maxSize = 100\<rparr>)
         [\<lparr>URL = ''bad'', Filename = ''a.txt''\<rparr>] ''docs'' 100 50)
     = Inl (External ''timeout'')
   \<and> workspace_gone (bulk_dir example_os example_uuid)
       (snd (BulkDownloadAndZip example_os example_fs example_uuid (Some \<lparr>maxSize = 100\<rparr>)
              [\<lparr>URL = ''bad'', Filename = ''a.txt''\<rparr>] ''docs'' 100 50))
   \<and> fst (ZipBytesToTemp example_os example_fs example_uuid ''data'' ''/'' ''z.zip'')
     = Inl (External ''is a directory'')
   \<and> workspace_gone (single_dir example_os example_uuid)
       (snd (ZipBytesToTemp example_os example_fs example_uuid ''data'' ''/'' ''z.zip''))"
proof -
  let ?b = "BulkDownloadAndZip example_os example_fs example_uuid (Some \<lparr>maxSize = 100\<rparr>)
         [\<lparr>URL = ''bad'', Filename = ''a.txt''\<rparr>] ''docs'' 100 50"
  let ?z = "ZipBytesToTemp example_os example_fs example_uuid ''data'' ''/'' ''z.zip''"
  have b: "?b = (Inl (External ''timeout''), snd ?b)"
    using example_bulk_failure by (metis prod.collapse)
  have z: "?z = (Inl (External ''is a directory''), snd ?z)"
    using example_single_failure by (metis prod.collapse)
  have c: "Some \<lparr>maxSize = 100\<rparr> \<noteq> None \<and> [\<lparr>URL = ''bad'', Filename = ''a.txt''\<rparr>] \<noteq> []
      \<and> \<not> getFreeSpaceBytes example_os (os_TempDir example_os) < 50
      \<and> MkdirAll_err example_os (bulk_dir example_os example_uuid) = None"
    using example_enough_space by (simp add: example_os_def)
  have d: "MkdirAll_err example_os (single_dir example_os example_uuid) = None"
    by (simp add: example_os_def)
  from b c
    builders_remove_workspace_on_failure
      [of example_os example_fs example_uuid "Some \<lparr>maxSize = 100\<rparr>"
          "[\<lparr>URL = ''bad'', Filename = ''a.txt''\<rparr>]" "''docs''" 100 50
          "External ''timeout''" "snd ?b"]
  have g1: "workspace_gone (bulk_dir example_os example_uuid) (snd ?b)"
    by (simp only: if_True simp_thms)
  from z d
    builders_remove_workspace_on_failure
      [of example_os example_fs example_uuid _ _ _ _ _
          "External ''is a directory''" "snd ?z" "''data''" "''/''" "''z.zip''"]
  have g2: "workspace_gone (single_dir example_os example_uuid) (snd ?z)"
    by (simp only: if_True simp_thms)
  from example_bulk_failure example_single_failure g1 g2 show ?thesis by simp
qed

subsection \<open>The single-file builder\<close>






section \<open>Properties of the names of a batch\<close>

lemma unique_name_spec:
  "unique_name taken b e fn c \<notin> set taken
   \<and> ((fn \<notin> set taken \<and> unique_name taken b e fn c = fn)
      \<or> (fn \<in> set taken
          \<and> (\<exists>k > c. unique_name taken b e fn c = suffixed b e k
                \<and> (\<forall>k'. c < k' \<and> k' < k \<longrightarrow> suffixed b e k' \<in> set taken))))"
proof (induction taken b e fn c rule: unique_name.induct)
  case (1 taken b e fn c)
  show ?case
  proof (cases "fn \<in> set taken")
    case False
    then show ?thesis by (simp add: unique_name.simps [of taken b e fn c])
  next
    case True
    let ?r = "unique_name taken b e (suffixed b e (c + 1)) (c + 1)"
    have r: "unique_name taken b e fn c = ?r"
      using True by (simp add: unique_name.simps [of taken b e fn c])
    note ih = "1.IH" [OF True]
    from ih have nt: "?r \<notin> set taken" by simp
    from ih have "\<exists>k > c. ?r = suffixed b e k
                \<and> (\<forall>k'. c < k' \<and> k' < k \<longrightarrow> suffixed b e k' \<in> set taken)"
    proof (elim conjE disjE)
      assume "?r = suffixed b e (c + 1)"
      then have "c < c + 1 \<and> ?r = suffixed b e (c + 1)
          \<and> (\<forall>k'. c < k' \<and> k' < c + 1 \<longrightarrow> suffixed b e k' \<in> set taken)" by auto
      then show ?thesis by blast
    next
      assume s: "suffixed b e (c + 1) \<in> set taken"
      assume "\<exists>k > c + 1. ?r = suffixed b e k
                \<and> (\<forall>k'. c + 1 < k' \<and> k' < k \<longrightarrow> suffixed b e k' \<in> set taken)"
      then obtain k where k: "c + 1 < k" "?r = suffixed b e k"
        and a: "\<forall>k'. c + 1 < k' \<and> k' < k \<longrightarrow> suffixed b e k' \<in> set taken" by blast
      have "suffixed b e k' \<in> set taken" if "c < k'" "k' < k" for k'
      proof (cases "k' = c + 1")
        case True
        with s show ?thesis by simp
      next
        case False
        with that have "c + 1 < k'" by simp
        with a that show ?thesis by blast
      qed
      with k have "c < k \<and> ?r = suffixed b e k
          \<and> (\<forall>k'. c < k' \<and> k' < k \<longrightarrow> suffixed b e k' \<in> set taken)" by simp
      then show ?thesis by blast
    qed
    with nt True r show ?thesis by simp
  qed
qed

lemma TrimLeftSpace_subset: "set (TrimLeftSpace s) \<subseteq> set s"
proof (induction s rule: TrimLeftSpace.induct)
  case (1 s)
  show ?case
  proof (cases "find (HasPrefix s) space_seqs")
    case None
    then show ?thesis by (simp add: TrimLeftSpace.simps [of s])
  next
    case (Some w)
    from "1.IH" [OF Some] have "set (TrimLeftSpace (drop (length w) s)) \<subseteq> set s"
      using set_drop_subset [of "length w" s] by blast
    with Some show ?thesis by (simp add: TrimLeftSpace.simps [of s])
  qed
qed

lemma TrimRightSpace_subset: "set (TrimRightSpace s) \<subseteq> set s"
proof (induction s rule: TrimRightSpace.induct)
  case (1 s)
  show ?case
  proof (cases "find (HasSuffix s) space_seqs")
    case None
    then show ?thesis by (simp add: TrimRightSpace.simps [of s])
  next
    case (Some w)
    from "1.IH" [OF Some] have "set (TrimRightSpace (take (length s - length w) s)) \<subseteq> set s"
      using set_take_subset [of "length s - length w" s] by blast
    with Some show ?thesis by (simp add: TrimRightSpace.simps [of s])
  qed
qed

lemma TrimSpace_subset: "set (TrimSpace s) \<subseteq> set s"
  using TrimRightSpace_subset [of "TrimLeftSpace s"] TrimLeftSpace_subset [of s]
  by (auto simp: TrimSpace_def)

lemma utf8_width_le: "utf8_width s \<le> length s"
  by (auto simp: utf8_width_def Let_def split: list.splits)

lemma slash_code: "(of_char (CHR ''/'') :: nat) = 47"
  by simp

lemma utf8_rune_no_slash:
  assumes "\<not> (of_char c :: nat) < 128"
  shows "CHR ''/'' \<notin> set (take (utf8_width (c # cs)) (c # cs))"
proof
  assume a: "CHR ''/'' \<in> set (take (utf8_width (c # cs)) (c # cs))"
  from assms have c: "c \<noteq> CHR ''/''" by auto
  have cb: "\<not> cont_byte (CHR ''/'')" by (simp add: cont_byte_def)
  have sb: "\<not> second_byte n (CHR ''/'')" for n by (simp add: second_byte_def)
  from a c cb sb show False
    by (auto simp: utf8_width_def Let_def take_Cons' split: list.splits if_splits)
qed

lemma strings_Map_no_slash:
  "(\<And>c. f c \<noteq> Some (CHR ''/'')) \<Longrightarrow> CHR ''/'' \<notin> set (strings_Map f s)"
proof (induction f s rule: strings_Map.induct)
  case (1 f)
  show ?case by simp
next
  case (2 f c cs)
  note f = "2.prems"
  show ?case
  proof (cases "(of_char c :: nat) < 128")
    case True
    from "2.IH" (1) [OF True f] have "CHR ''/'' \<notin> set (strings_Map f cs)" .
    with True f [of c] show ?thesis
      by (auto simp: strings_Map.simps (2) [of f c cs] split: option.splits)
  next
    case hi: False
    show ?thesis
    proof (cases "utf8_width (c # cs) = 0")
      case True
      from "2.IH" (2) [OF hi True f] have "CHR ''/'' \<notin> set (strings_Map f cs)" .
      with hi True show ?thesis
        by (simp add: strings_Map.simps (2) [of f c cs] rune_error_def)
    next
      case False
      from "2.IH" (3) [OF hi False f]
      have "CHR ''/'' \<notin> set (strings_Map f (drop (utf8_width (c # cs)) (c # cs)))" .
      with hi False utf8_rune_no_slash [OF hi, of cs] show ?thesis
        by (simp add: strings_Map.simps (2) [of f c cs])
    qed
  qed
qed

lemma sanitizeBulkFilename_no_slash: "CHR ''/'' \<notin> set (sanitizeBulkFilename s)"
proof -
  have "CHR ''/'' \<notin> set (strings_Map (\<lambda>r. if r \<in> set bad_chars then None else Some r) s)"
    by (rule strings_Map_no_slash) (simp add: bad_chars_def)
  then show ?thesis
    using TrimSpace_subset by (auto simp: sanitizeBulkFilename_def)
qed

lemma digits_no_slash: "CHR ''/'' \<notin> set (digits n)"
proof
  assume "CHR ''/'' \<in> set (digits n)"
  from digits_chars [OF this] show False by simp
qed

lemma Itoa_no_slash: "CHR ''/'' \<notin> set (Itoa n)"
  by (simp add: Itoa_def digits_no_slash)

lemma Itoa_nonempty: "Itoa n \<noteq> []"
  by (simp add: Itoa_def digits_nonempty)

lemma bulk_base_no_slash: "CHR ''/'' \<notin> set (bulk_base i it)"
  by (simp add: bulk_base_def Let_def sanitizeBulkFilename_no_slash Itoa_no_slash)

lemma bulk_base_nonempty: "bulk_base i it \<noteq> []"
  by (simp add: bulk_base_def Let_def)

lemma Ext_subset: "set (Ext p) \<subseteq> set p"
proof -
  let ?e = "rev (takeWhile (\<lambda>c. c \<noteq> CHR ''/'') (rev p))"
  have e: "set ?e \<subseteq> set p" by (auto dest: set_takeWhileD)
  have "set (rev (takeWhile (\<lambda>c. c \<noteq> CHR ''.'') (rev ?e))) \<subseteq> set ?e"
    by (auto dest: set_takeWhileD)
  with e have "set (rev (takeWhile (\<lambda>c. c \<noteq> CHR ''.'') (rev ?e))) \<subseteq> set p" by blast
  with e show ?thesis by (auto simp: Ext_def Let_def)
qed

lemma TrimSuffix_subset: "set (TrimSuffix s x) \<subseteq> set s"
  by (auto simp: TrimSuffix_def dest: in_set_takeD)

lemma suffixed_no_slash:
  "CHR ''/'' \<notin> set b \<Longrightarrow> CHR ''/'' \<notin> set e \<Longrightarrow> CHR ''/'' \<notin> set (suffixed b e c)"
  by (simp add: suffixed_def Itoa_no_slash)

lemma suffixed_nonempty: "suffixed b e c \<noteq> []"
  by (simp add: suffixed_def)

lemma bulk_name_cases:
  "bulk_name taken i it \<notin> set taken
   \<and> ((bulk_base i it \<notin> set taken \<and> bulk_name taken i it = bulk_base i it)
      \<or> (bulk_base i it \<in> set taken
          \<and> (\<exists>k > 0. bulk_name taken i it
                  = suffixed (TrimSuffix (bulk_base i it) (Ext (bulk_base i it)))
                      (Ext (bulk_base i it)) k
                \<and> (\<forall>k'. 0 < k' \<and> k' < k \<longrightarrow>
                      suffixed (TrimSuffix (bulk_base i it) (Ext (bulk_base i it)))
                        (Ext (bulk_base i it)) k' \<in> set taken))))"
  using unique_name_spec [of taken "TrimSuffix (bulk_base i it) (Ext (bulk_base i it))"
      "Ext (bulk_base i it)" "bulk_base i it" 0]
  by (simp add: bulk_name_def Let_def)

lemma bulk_name_fresh: "bulk_name taken i it \<notin> set taken"
  using bulk_name_cases [of taken i it] by blast

lemma bulk_name_nonempty: "bulk_name taken i it \<noteq> []"
  using bulk_name_cases [of taken i it] bulk_base_nonempty [of i it] suffixed_nonempty
  by metis

lemma bulk_name_no_slash: "CHR ''/'' \<notin> set (bulk_name taken i it)"
proof -
  let ?b = "bulk_base i it"
  have b: "CHR ''/'' \<notin> set ?b" by (rule bulk_base_no_slash)
  then have "CHR ''/'' \<notin> set (TrimSuffix ?b (Ext ?b))" "CHR ''/'' \<notin> set (Ext ?b)"
    using TrimSuffix_subset [of ?b "Ext ?b"] Ext_subset [of ?b] by auto
  then have "CHR ''/'' \<notin> set (suffixed (TrimSuffix ?b (Ext ?b)) (Ext ?b) k)" for k
    by (rule suffixed_no_slash)
  with b bulk_name_cases [of taken i it] show ?thesis by metis
qed


lemma bulk_dir_nonempty: "bulk_dir env u \<noteq> []"
  by (simp add: bulk_dir_def Join_def)

lemma bulk_step_success:
  assumes "bulk_step env y d m i it st = Inr st'"
  shows "used st' = bulk_name (used st) i it # used st
    \<and> writtenPaths st' = writtenPaths st @ [Join d (bulk_name (used st) i it)]
    \<and> dirs (on_disk st') = dirs (on_disk st)
    \<and> Join d (bulk_name (used st) i it) \<notin> dirs (on_disk st)"
  using assms
  by (auto simp: bulk_step_def DownloadToFile_def os_WriteFile_def Let_def
      split: sum.splits prod.splits if_splits option.splits)

lemma workspace_name_plain:
  assumes d: "bulk_dir env u \<in> D" and p: "Join (bulk_dir env u) ''..'' \<in> D"
    and n: "Join (bulk_dir env u) (bulk_name taken i it) \<notin> D"
  shows "plain_name (bulk_name taken i it)"
proof -
  from d n bulk_dir_dot [of env u] have "bulk_name taken i it \<noteq> ''.''" by metis
  moreover from p n have "bulk_name taken i it \<noteq> ''..''" by metis
  ultimately show ?thesis
    by (simp add: plain_name_def bulk_name_nonempty bulk_name_no_slash)
qed

lemma bulk_step_inv:
  assumes inv: "bulk_inv (bulk_dir env u) st"
    and step: "bulk_step env y (bulk_dir env u) m i it st = Inr st'"
  shows "bulk_inv (bulk_dir env u) st'"
proof -
  let ?d = "bulk_dir env u"
  let ?n = "bulk_name (used st) i it"
  note s = bulk_step_success [OF step]
  from inv have dd: "?d \<in> dirs (on_disk st)" "Join ?d ''..'' \<in> dirs (on_disk st)"
    by (simp_all add: bulk_inv_def)
  from s have "Join ?d ?n \<notin> dirs (on_disk st)" by simp
  with dd have "plain_name ?n" by (rule workspace_name_plain)
  with bulk_dir_nonempty have b: "Base (Join ?d ?n) = ?n" by (rule Base_Join_name)
  from inv s b dd show ?thesis
    by (simp add: bulk_inv_def bulk_name_fresh bulk_name_nonempty [THEN not_sym])
qed

lemma bulk_items_inv:
  "bulk_inv (bulk_dir env u) st \<Longrightarrow> bulk_items env y (bulk_dir env u) m i items st = Inr st'
     \<Longrightarrow> bulk_inv (bulk_dir env u) st'"
proof (induction items arbitrary: i st)
  case Nil
  then show ?case by simp
next
  case (Cons it items)
  from Cons.prems(2) obtain st1 where
    a: "bulk_step env y (bulk_dir env u) m i it st = Inr st1"
    and b: "bulk_items env y (bulk_dir env u) m (Suc i) items st1 = Inr st'"
    by (auto split: sum.splits)
  from Cons.prems(1) a have "bulk_inv (bulk_dir env u) st1" by (rule bulk_step_inv)
  from this b show ?case by (rule Cons.IH)
qed

lemma bulk_items_names:
  "bulk_items env y d m i items st = Inr st' \<Longrightarrow>
     \<exists>ns. length ns = length items \<and> used st' = rev ns @ used st
       \<and> (\<forall>k < length items.
              ns ! k = bulk_name (rev (take k ns) @ used st) (i + k) (items ! k))"
proof (induction items arbitrary: i st)
  case Nil
  then show ?case by simp
next
  case (Cons it items)
  from Cons.prems obtain st1 where
    a: "bulk_step env y d m i it st = Inr st1"
    and b: "bulk_items env y d m (Suc i) items st1 = Inr st'"
    by (auto split: sum.splits)
  let ?n = "bulk_name (used st) i it"
  from bulk_step_success [OF a] have u1: "used st1 = ?n # used st" by simp
  from Cons.IH [OF b] obtain ns where
    l: "length ns = length items" and u: "used st' = rev ns @ used st1"
    and x: "\<forall>k < length items.
              ns ! k = bulk_name (rev (take k ns) @ used st1) (Suc i + k) (items ! k)"
    by blast
  have "(?n # ns) ! k = bulk_name (rev (take k (?n # ns)) @ used st) (i + k) ((it # items) ! k)"
    if "k < length (it # items)" for k
  proof (cases k)
    case 0
    then show ?thesis by simp
  next
    case (Suc j)
    with that have "j < length items" by simp
    with x have "ns ! j = bulk_name (rev (take j ns) @ used st1) (Suc i + j) (items ! j)"
      by blast
    with Suc u1 show ?thesis by simp
  qed
  moreover have "length (?n # ns) = length (it # items)" using l by simp
  moreover have "used st' = rev (?n # ns) @ used st" using u u1 by simp
  ultimately show ?case by blast
qed

lemma zip_files_names:
  "zip_files env disk ps acc = Inr entries \<Longrightarrow> map fst entries = map fst acc @ map Base ps"
proof (induction ps arbitrary: acc)
  case Nil
  then show ?case by simp
next
  case (Cons p ps)
  from Cons.prems obtain data where
    "zip_files env disk ps (acc @ [(Base p, data)]) = Inr entries"
    by (auto simp: Let_def split: option.splits sum.splits)
  from Cons.IH [OF this] show ?case by simp
qed

lemma BulkDownloadAndZip_success:
  assumes "BulkDownloadAndZip env disk u yandex items cat maxA minF = (Inr (zipPath, dir), disk')"
  shows "\<exists>y st entries disk3.
           yandex = Some y \<and> dir = bulk_dir env u
           \<and> bulk_items env y (bulk_dir env u) maxA 0 items
                 \<lparr>used = [], writtenPaths = [], total = 0,
                  on_disk = disk\<lparr>dirs := dirs disk \<union> {bulk_dir env u,
                                         Join (bulk_dir env u) ''..''}\<rparr>\<rparr> = Inr st
           \<and> zip_files env disk3 (writtenPaths st) [] = Inr entries
           \<and> files disk' zipPath = Some (Archive entries)"
  using assms
  by (auto simp: BulkDownloadAndZip_def os_MkdirAll_def Let_def
      split: option.splits prod.splits if_splits sum.splits)

lemma BulkDownloadAndZip_names:
  assumes "BulkDownloadAndZip env disk u yandex items cat maxA minF = (Inr (zipPath, dir), disk')"
  shows "\<exists>entries. files disk' zipPath = Some (Archive entries)
           \<and> length entries = length items
           \<and> distinct (map fst entries) \<and> [] \<notin> set (map fst entries)
           \<and> (\<forall>k < length items.
                  map fst entries ! k
                    = bulk_name (rev (take k (map fst entries))) k (items ! k))"
proof -
  let ?d = "bulk_dir env u"
  let ?st0 = "\<lparr>used = [], writtenPaths = [], total = 0,
                  on_disk = disk\<lparr>dirs := dirs disk \<union> {?d, Join ?d ''..''}\<rparr>\<rparr>"
  from BulkDownloadAndZip_success [OF assms] obtain y st entries disk3 where
    b: "bulk_items env y ?d maxA 0 items ?st0 = Inr st"
    and z: "zip_files env disk3 (writtenPaths st) [] = Inr entries"
    and f: "files disk' zipPath = Some (Archive entries)"
    by blast
  have "bulk_inv ?d ?st0" by (simp add: bulk_inv_def)
  from this b have inv: "bulk_inv ?d st" by (rule bulk_items_inv)
  from zip_files_names [OF z] inv have e: "map fst entries = rev (used st)"
    by (simp add: bulk_inv_def)
  from bulk_items_names [OF b] obtain ns where
    l: "length ns = length items" and u: "used st = rev ns"
    and x: "\<forall>k < length items. ns ! k = bulk_name (rev (take k ns)) k (items ! k)"
    by auto
  from e u have ens: "map fst entries = ns" by simp
  from ens l have "length entries = length items" by (metis length_map)
  moreover from inv e have "distinct (map fst entries)" "[] \<notin> set (map fst entries)"
    by (simp_all add: bulk_inv_def)
  ultimately show ?thesis using f x ens by blast
qed

lemma digits_plain: "CHR ''_'' \<notin> set (digits m) \<and> CHR ''.'' \<notin> set (digits m)"
proof -
  have "c \<noteq> CHR ''_'' \<and> c \<noteq> CHR ''.''" if "c \<in> set (digits m)" for c
    using digits_chars [OF that] by auto
  then show ?thesis by blast
qed

lemma Itoa_plain: "CHR ''_'' \<notin> set (Itoa n) \<and> CHR ''.'' \<notin> set (Itoa n)"
  using digits_plain by (simp add: Itoa_def)

lemma Ext_plain:
  assumes "CHR ''/'' \<notin> set p"
  shows "Ext p = (if CHR ''.'' \<in> set p
              then CHR ''.'' # rev (takeWhile (\<lambda>c. c \<noteq> CHR ''.'') (rev p)) else [])"
proof -
  from assms have "\<forall>c \<in> set (rev p). c \<noteq> CHR ''/''" by auto
  then have tw: "takeWhile (\<lambda>c. c \<noteq> CHR ''/'') (rev p) = rev p"
    by (simp add: takeWhile_eq_all_conv)
  show ?thesis unfolding Ext_def Let_def tw by simp
qed

lemma HasSuffix_append: "HasSuffix (ys @ e) e"
  by (simp add: HasSuffix_def)

lemma Ext_suffix: "HasSuffix p (Ext p)"
proof (cases "CHR ''.'' \<in> set (takeWhile (\<lambda>c. c \<noteq> CHR ''/'') (rev p))")
  case False
  then show ?thesis by (simp add: Ext_def Let_def HasSuffix_def)
next
  case True
  define tw1 where "tw1 = takeWhile (\<lambda>c. c \<noteq> CHR ''/'') (rev p)"
  define dw1 where "dw1 = dropWhile (\<lambda>c. c \<noteq> CHR ''/'') (rev p)"
  define tw2 where "tw2 = takeWhile (\<lambda>c. c \<noteq> CHR ''.'') tw1"
  define dw2 where "dw2 = dropWhile (\<lambda>c. c \<noteq> CHR ''.'') tw1"
  have q: "rev p = tw1 @ dw1" by (simp add: tw1_def dw1_def)
  have t: "tw1 = tw2 @ dw2" by (simp add: tw2_def dw2_def)
  from True have ne: "dw2 \<noteq> []"
    by (simp add: dw2_def tw1_def dropWhile_eq_Nil_conv)
  then have "hd dw2 = CHR ''.''"
    using hd_dropWhile [of "\<lambda>c. c \<noteq> CHR ''.''" tw1] by (simp add: dw2_def)
  with ne obtain r where r: "dw2 = CHR ''.'' # r" by (cases dw2) auto
  from q t r have "rev p = tw2 @ CHR ''.'' # r @ dw1" by simp
  then have "rev (rev p) = rev (tw2 @ CHR ''.'' # r @ dw1)" by (rule arg_cong)
  then have p: "p = (rev dw1 @ rev r) @ CHR ''.'' # rev tw2" by simp
  have e: "Ext p = CHR ''.'' # rev tw2"
    using True by (simp add: Ext_def Let_def tw2_def tw1_def)
  from p e have "p = (rev dw1 @ rev r) @ Ext p" by simp
  then show ?thesis using HasSuffix_append [of "rev dw1 @ rev r" "Ext p"] by simp
qed

lemma TrimSuffix_Ext: "TrimSuffix p (Ext p) @ Ext p = p"
  using Ext_suffix [of p] by (auto simp: TrimSuffix_def HasSuffix_def)
     (metis append_take_drop_id)


lemma TrimSuffix_no_slash: "CHR ''/'' \<notin> set b \<Longrightarrow> CHR ''/'' \<notin> set (TrimSuffix b x)"
  using TrimSuffix_subset [of b x] by auto

lemma Ext_no_slash: "CHR ''/'' \<notin> set b \<Longrightarrow> CHR ''/'' \<notin> set (Ext b)"
  using Ext_subset [of b] by auto

lemma with_counter_no_slash: "CHR ''/'' \<notin> set b \<Longrightarrow> CHR ''/'' \<notin> set (with_counter b c)"
  by (simp add: with_counter_def suffixed_no_slash TrimSuffix_no_slash Ext_no_slash)

lemma Ext_with_counter:
  assumes ns: "CHR ''/'' \<notin> set b"
  shows "Ext (with_counter b c) = Ext b"
proof (cases "CHR ''.'' \<in> set b")
  case False
  with ns have e: "Ext b = []" by (simp add: Ext_plain)
  then have w: "with_counter b c = b @ ''_'' @ Itoa c"
    by (simp add: with_counter_def suffixed_def TrimSuffix_def HasSuffix_def)
  from False Itoa_plain [of c] have "CHR ''.'' \<notin> set (with_counter b c)"
    by (simp add: w)
  with with_counter_no_slash [OF ns, of c] e show ?thesis by (simp add: Ext_plain)
next
  case True
  define t where "t = rev (takeWhile (\<lambda>c. c \<noteq> CHR ''.'') (rev b))"
  from True ns have e: "Ext b = CHR ''.'' # t" by (simp add: Ext_plain t_def)
  have nt: "\<forall>x \<in> set (rev t). x \<noteq> CHR ''.''"
    by (auto simp: t_def dest: set_takeWhileD)
  define x where "x = TrimSuffix b (Ext b) @ ''_'' @ Itoa c"
  have w: "with_counter b c = x @ CHR ''.'' # t"
    by (simp add: with_counter_def suffixed_def e x_def)
  have "takeWhile (\<lambda>c. c \<noteq> CHR ''.'') (rev t @ CHR ''.'' # rev x) = rev t"
    using nt by (simp add: takeWhile_append)
  then have "rev (takeWhile (\<lambda>c. c \<noteq> CHR ''.'') (rev (x @ CHR ''.'' # t))) = t"
    by simp
  moreover have "CHR ''/'' \<notin> set (x @ CHR ''.'' # t)"
    using with_counter_no_slash [OF ns, of c] by (simp add: w)
  ultimately have "Ext (x @ CHR ''.'' # t) = CHR ''.'' # t"
    by (simp add: Ext_plain)
  with w e show ?thesis by simp
qed

lemma split_at_first:
  "a \<notin> set xs \<Longrightarrow> a \<notin> set xs' \<Longrightarrow> xs @ a # ys = xs' @ a # ys' \<Longrightarrow> xs = xs' \<and> ys = ys'"
proof (induction xs arbitrary: xs')
  case Nil
  then show ?case by (cases xs') auto
next
  case (Cons x xs)
  then show ?case by (cases xs') auto
qed

lemma split_at_last:
  assumes "xs @ a # ys = xs' @ a # ys'" and "a \<notin> set ys" and "a \<notin> set ys'"
  shows "xs = xs' \<and> ys = ys'"
proof -
  from assms(1) have "rev (xs @ a # ys) = rev (xs' @ a # ys')" by (rule arg_cong)
  then have e: "rev ys @ a # rev xs = rev ys' @ a # rev xs'" by simp
  have "a \<notin> set (rev ys)" "a \<notin> set (rev ys')" using assms(2,3) by simp_all
  from split_at_first [OF this e] show ?thesis by simp
qed

lemma with_counter_inj:
  assumes b: "CHR ''/'' \<notin> set b" and b': "CHR ''/'' \<notin> set b'"
    and eq: "with_counter b c = with_counter b' c'"
  shows "b = b' \<and> c = c'"
proof -
  from eq have "Ext (with_counter b c) = Ext (with_counter b' c')" by simp
  then have e: "Ext b = Ext b'" using b b' by (simp add: Ext_with_counter)
  from eq e have "TrimSuffix b (Ext b) @ CHR ''_'' # Itoa c
      = TrimSuffix b' (Ext b') @ CHR ''_'' # Itoa c'"
    by (simp add: with_counter_def suffixed_def split: if_splits)
  from split_at_last [OF this] Itoa_plain [of c] Itoa_plain [of c']
  have s: "TrimSuffix b (Ext b) = TrimSuffix b' (Ext b') \<and> Itoa c = Itoa c'"
    by blast
  then have "c = c'" by (simp add: Itoa_inj)
  moreover from s e have "TrimSuffix b (Ext b) @ Ext b = TrimSuffix b' (Ext b') @ Ext b'"
    by (simp only:)
  then have "b = b'" by (simp only: TrimSuffix_Ext)
  ultimately show ?thesis by simp
qed

lemma count_take_Suc:
  "k < length bs \<Longrightarrow>
     count_list (take (Suc k) bs) b = count_list (take k bs) b + (if bs ! k = b then 1 else 0)"
  by (simp add: take_Suc_conv_app_nth)

lemma count_take_reached:
  "k \<le> length bs \<Longrightarrow> c < count_list (take k bs) b \<Longrightarrow>
     \<exists>j < k. bs ! j = b \<and> count_list (take j bs) b = c"
proof (induction k)
  case 0
  then show ?case by simp
next
  case (Suc k)
  then have k: "k < length bs" by simp
  show ?case
  proof (cases "c < count_list (take k bs) b")
    case True
    with Suc.IH k obtain j where "j < k" "bs ! j = b" "count_list (take j bs) b = c"
      by auto
    then have "j < Suc k \<and> bs ! j = b \<and> count_list (take j bs) b = c" by simp
    then show ?thesis by blast
  next
    case False
    with Suc.prems(2) k have "bs ! k = b \<and> count_list (take k bs) b = c"
      by (simp add: count_take_Suc split: if_splits)
    then have "k < Suc k \<and> bs ! k = b \<and> count_list (take k bs) b = c" by simp
    then show ?thesis by blast
  qed
qed

lemma count_take_mono:
  "j \<le> k \<Longrightarrow> k \<le> length bs \<Longrightarrow> count_list (take j bs) b \<le> count_list (take k bs) b"
proof (induction k)
  case 0
  then show ?case by simp
next
  case (Suc k)
  show ?case
  proof (cases "j = Suc k")
    case True
    then show ?thesis by simp
  next
    case False
    with Suc.prems have "j \<le> k" "k < length bs" by simp_all
    with Suc.IH have "count_list (take j bs) b \<le> count_list (take k bs) b" by simp
    also have "\<dots> \<le> count_list (take (Suc k) bs) b"
      using \<open>k < length bs\<close> by (simp add: count_take_Suc)
    finally show ?thesis .
  qed
qed

lemma count_take_less:
  assumes "j < k" and "k \<le> length bs" and "bs ! j = b"
  shows "count_list (take j bs) b < count_list (take k bs) b"
proof -
  from assms have j: "j < length bs" by simp
  with assms(3) have "count_list (take (Suc j) bs) b = count_list (take j bs) b + 1"
    by (simp add: count_take_Suc)
  moreover have "count_list (take (Suc j) bs) b \<le> count_list (take k bs) b"
    using assms(1,2) by (intro count_take_mono) simp_all
  ultimately show ?thesis by simp
qed


lemma names_follow_counters:
  fixes ns bs :: "string list"
  assumes len: "length ns = length bs"
    and plain: "\<And>i. i < length bs \<Longrightarrow> CHR ''/'' \<notin> set (bs ! i)"
    and step: "\<And>k. k < length bs \<Longrightarrow>
        ns ! k \<notin> set (take k ns)
        \<and> ((bs ! k \<notin> set (take k ns) \<and> ns ! k = bs ! k)
           \<or> (bs ! k \<in> set (take k ns)
               \<and> (\<exists>c > 0. ns ! k = with_counter (bs ! k) c
                     \<and> (\<forall>c'. 0 < c' \<and> c' < c \<longrightarrow>
                           with_counter (bs ! k) c' \<in> set (take k ns)))))"
    and apart: "\<And>i j c. i < length bs \<Longrightarrow> j < length bs \<Longrightarrow> 1 \<le> c \<Longrightarrow>
        bs ! i \<noteq> with_counter (bs ! j) c"
  shows "k < length bs \<Longrightarrow>
     ns ! k = (let m = count_list (take k bs) (bs ! k)
               in if m = 0 then bs ! k else with_counter (bs ! k) (int m))"
proof (induction k rule: less_induct)
  case (less k)
  define cnt where "cnt j = count_list (take j bs) (bs ! j)" for j
  define spec where "spec j = (if cnt j = 0 then bs ! j else with_counter (bs ! j) (int (cnt j)))"
    for j
  note k = less.prems
  have prev: "ns ! j = spec j" if "j < k" for j
    using less.IH [OF that] that k by (simp add: spec_def cnt_def Let_def)
  have taken: "x \<in> set (take k ns) \<longleftrightarrow> (\<exists>j < k. x = spec j)" for x
  proof
    assume "x \<in> set (take k ns)"
    then obtain j where "j < length (take k ns)" "take k ns ! j = x"
      by (auto simp: in_set_conv_nth)
    with k len have "j < k \<and> x = spec j" using prev by auto
    then show "\<exists>j < k. x = spec j" by blast
  next
    assume "\<exists>j < k. x = spec j"
    then obtain j where j: "j < k" "x = spec j" by blast
    with k len have "j < length (take k ns)" "take k ns ! j = x" using prev by auto
    then show "x \<in> set (take k ns)" by (auto simp: in_set_conv_nth)
  qed
  let ?b = "bs ! k"
  show ?case
  proof (cases "cnt k = 0")
    case True
    then have nb: "?b \<notin> set (take k bs)" by (simp add: cnt_def count_list_0_iff)
    have "?b \<notin> set (take k ns)"
    proof
      assume "?b \<in> set (take k ns)"
      then obtain j where j: "j < k" "?b = spec j" using taken by blast
      show False
      proof (cases "cnt j = 0")
        case True
        with j have "?b = bs ! j" by (simp add: spec_def)
        with j(1) k have "?b \<in> set (take k bs)"
          by (auto simp: in_set_conv_nth intro!: exI [of _ j])
        with nb show False by simp
      next
        case False
        with j have "?b = with_counter (bs ! j) (int (cnt j))" by (simp add: spec_def)
        moreover have "1 \<le> int (cnt j)" using False by simp
        moreover have "j < length bs" using j(1) k by simp
        ultimately show False using apart [OF k, of j "int (cnt j)"] by simp
      qed
    qed
    with step [OF k] have "ns ! k = ?b" by blast
    with True show ?thesis by (simp add: cnt_def Let_def)
  next
    case False
    define m where "m = cnt k"
    from False have m: "0 < m" by (simp add: m_def)
    have kl: "k \<le> length bs" using k by simp
    have reach: "\<exists>j < k. bs ! j = ?b \<and> cnt j = c" if "c < m" for c
    proof -
      from that have "c < count_list (take k bs) ?b" by (simp add: m_def cnt_def)
      from count_take_reached [OF kl this] show ?thesis by (auto simp: cnt_def)
    qed
    have base_taken: "?b \<in> set (take k ns)"
    proof -
      from reach [OF m] obtain j where "j < k" "bs ! j = ?b" "cnt j = 0" by blast
      then have "j < k \<and> ?b = spec j" by (simp add: spec_def)
      then show ?thesis using taken by blast
    qed
    have below: "with_counter ?b c \<in> set (take k ns)" if "0 < c" "c < int m" for c
    proof -
      from that have "nat c < m" by simp
      from reach [OF this] obtain j where j: "j < k" "bs ! j = ?b" "cnt j = nat c" by blast
      with that have "j < k \<and> with_counter ?b c = spec j" by (simp add: spec_def)
      then show ?thesis using taken by blast
    qed
    have free: "with_counter ?b (int m) \<notin> set (take k ns)"
    proof
      assume "with_counter ?b (int m) \<in> set (take k ns)"
      then obtain j where j: "j < k" "with_counter ?b (int m) = spec j" using taken by blast
      then have jl: "j < length bs" using k by simp
      show False
      proof (cases "cnt j = 0")
        case True
        with j have "bs ! j = with_counter ?b (int m)" by (simp add: spec_def)
        moreover have "1 \<le> int m" using m by simp
        ultimately show False using apart [OF jl k, of "int m"] by simp
      next
        case False
        with j have "with_counter ?b (int m) = with_counter (bs ! j) (int (cnt j))"
          by (simp add: spec_def)
        from with_counter_inj [OF plain [OF k] plain [OF jl] this]
        have e: "bs ! j = ?b" "cnt j = m" by simp_all
        from count_take_less [OF j(1) kl e(1)] have "cnt j < m"
          using e(1) by (simp add: cnt_def m_def)
        with e(2) show False by simp
      qed
    qed
    from step [OF k] base_taken obtain c where
      c: "0 < c" "ns ! k = with_counter ?b c"
      and all: "\<forall>c'. 0 < c' \<and> c' < c \<longrightarrow> with_counter ?b c' \<in> set (take k ns)"
      and fresh: "ns ! k \<notin> set (take k ns)"
      by blast
    have "c = int m"
    proof (rule ccontr)
      assume ne: "c \<noteq> int m"
      show False
      proof (cases "c < int m")
        case True
        from below [OF c(1) True] fresh c(2) show False by simp
      next
        case False
        with ne have "int m < c" by simp
        moreover have "0 < int m" using m by simp
        ultimately have "with_counter ?b (int m) \<in> set (take k ns)" using all by blast
        with free show False by simp
      qed
    qed
    with c(2) False show ?thesis by (simp add: cnt_def m_def Let_def)
  qed
qed

lemma desired_length: "length (desired items) = length items"
  by (simp add: desired_def)

lemma desired_nth: "k < length items \<Longrightarrow> desired items ! k = bulk_base k (items ! k)"
  by (simp add: desired_def)

lemma spec_names_length: "length (spec_names bs) = length bs"
  by (simp add: spec_names_def)

lemma spec_names_nth:
  "k < length bs \<Longrightarrow>
     spec_names bs ! k = (let m = count_list (take k bs) (bs ! k)
                          in if m = 0 then bs ! k else with_counter (bs ! k) (int m))"
  by (simp add: spec_names_def Let_def)

lemma fallback_Ext: "Ext (''file_'' @ Itoa n) = []"
proof -
  have s: "CHR ''/'' \<notin> set (''file_'' @ Itoa n)" by (simp add: Itoa_no_slash)
  have d: "CHR ''.'' \<notin> set (''file_'' @ Itoa n)" using Itoa_plain [of n] by simp
  show ?thesis unfolding Ext_plain [OF s] using d by (rule if_not_P)
qed

subsection \<open>Evaluating the example batches\<close>

lemmas trim_eval = TrimSpace_def TrimLeftSpace.simps TrimRightSpace.simps
      space_seqs_def HasPrefix_def HasSuffix_def

lemma example_sanitize:
  "sanitizeBulkFilename ''a.txt'' = ''a.txt''"
  "sanitizeBulkFilename ''a_1.txt'' = ''a_1.txt''"
  "sanitizeBulkFilename [] = []"
  by (simp_all add: sanitizeBulkFilename_def strings_Map.simps bad_chars_def trim_eval)

lemma example_category: "sanitizeCategoryForZip ''docs'' = ''docs''"
  by (simp add: sanitizeCategoryForZip_def strings_Map.simps bad_chars_def trim_eval)

lemma example_Itoa: "Itoa 1 = ''1''" "Itoa 2 = ''2''"
  by (simp_all add: Itoa_def digits.simps digit_char_def)

lemma example_Ext: "Ext ''a.txt'' = ''.txt''" "Ext ''a_1.txt'' = ''.txt''" "Ext ''file_2'' = []"
  by (simp_all add: Ext_def)

lemma example_with_counter:
  "with_counter ''a.txt'' c = ''a_'' @ Itoa c @ ''.txt''"
  "with_counter ''a_1.txt'' c = ''a_1_'' @ Itoa c @ ''.txt''"
  "with_counter ''file_2'' c = ''file_2_'' @ Itoa c"
  by (simp_all add: with_counter_def example_Ext TrimSuffix_def HasSuffix_def suffixed_def)

lemma example_desired:
  "desired example_batch = [''a.txt'', ''a.txt'', ''file_2'']"
  "desired example_crossing = [''a_1.txt'', ''a.txt'', ''a.txt'']"
  by (simp_all add: desired_def example_batch_def example_crossing_def bulk_base_def
      example_sanitize example_Itoa upt_rec [of 0] upt_rec [of 1] upt_rec [of 2])

lemma example_spec_names:
  "spec_names [''a.txt'', ''a.txt'', ''file_2''] = [''a.txt'', ''a_1.txt'', ''file_2'']"
  "spec_names [''a_1.txt'', ''a.txt'', ''a.txt''] = [''a_1.txt'', ''a.txt'', ''a_1.txt'']"
  by (simp_all add: spec_names_def example_with_counter example_Itoa
      upt_rec [of 0] upt_rec [of 1] upt_rec [of 2])

lemma example_bulk_name:
  "bulk_name [] 0 \<lparr>URL = x, Filename = ''a.txt''\<rparr> = ''a.txt''"
  "bulk_name [''a.txt''] (Suc 0) \<lparr>URL = x, Filename = ''a.txt''\<rparr> = ''a_1.txt''"
  "bulk_name [''a_1.txt'', ''a.txt''] (Suc (Suc 0)) \<lparr>URL = x, Filename = []\<rparr> = ''file_2''"
  "bulk_name [] 0 \<lparr>URL = x, Filename = ''a_1.txt''\<rparr> = ''a_1.txt''"
  "bulk_name [''a_1.txt''] (Suc 0) \<lparr>URL = x, Filename = ''a.txt''\<rparr> = ''a.txt''"
  "bulk_name [''a.txt'', ''a_1.txt''] (Suc (Suc 0)) \<lparr>URL = x, Filename = ''a.txt''\<rparr>
     = ''a_2.txt''"
  by (simp_all add: bulk_name_def bulk_base_def example_sanitize example_Itoa example_Ext
      TrimSuffix_def HasSuffix_def unique_name.simps suffixed_def)

lemmas path_eval = Join_def Clean_def clean_step_def clean_render_def

lemma example_paths:
  "Join ''/tmp/bulk_01020304-0506-0708-090a-0b0c0d0e0f10'' ''..'' = ''/tmp''"
  "Join ''/tmp/bulk_01020304-0506-0708-090a-0b0c0d0e0f10'' ''a.txt''
     = ''/tmp/bulk_01020304-0506-0708-090a-0b0c0d0e0f10/a.txt''"
  "Join ''/tmp/bulk_01020304-0506-0708-090a-0b0c0d0e0f10'' ''a_1.txt''
     = ''/tmp/bulk_01020304-0506-0708-090a-0b0c0d0e0f10/a_1.txt''"
  "Join ''/tmp/bulk_01020304-0506-0708-090a-0b0c0d0e0f10'' ''a_2.txt''
     = ''/tmp/bulk_01020304-0506-0708-090a-0b0c0d0e0f10/a_2.txt''"
  "Join ''/tmp/bulk_01020304-0506-0708-090a-0b0c0d0e0f10'' ''file_2''
     = ''/tmp/bulk_01020304-0506-0708-090a-0b0c0d0e0f10/file_2''"
  "Join ''/tmp/bulk_01020304-0506-0708-090a-0b0c0d0e0f10'' ''docs.zip''
     = ''/tmp/bulk_01020304-0506-0708-090a-0b0c0d0e0f10/docs.zip''"
  by (simp_all add: path_eval)

lemma example_bases:
  "Base ''/tmp/bulk_01020304-0506-0708-090a-0b0c0d0e0f10/a.txt'' = ''a.txt''"
  "Base ''/tmp/bulk_01020304-0506-0708-090a-0b0c0d0e0f10/a_1.txt'' = ''a_1.txt''"
  "Base ''/tmp/bulk_01020304-0506-0708-090a-0b0c0d0e0f10/a_2.txt'' = ''a_2.txt''"
  "Base ''/tmp/bulk_01020304-0506-0708-090a-0b0c0d0e0f10/file_2'' = ''file_2''"
  by (simp_all add: Base_def)


lemma example_calls:
  "MkdirAll_err example_os p = None" "WriteFile_err example_os p = None"
  "Create_err example_os p = None" "Open_err example_os p = None"
  "CreateHeader_err example_os p = None" "zw_Close_err example_os p = None"
  "zf_Close_err example_os p = None"
  "fetch example_os ''u1'' = Inr ''u1''" "fetch example_os ''u2'' = Inr ''u2''"
  "fetch example_os ''u3'' = Inr ''u3''"
  by (simp_all add: example_os_def)

lemmas bulk_eval = BulkDownloadAndZip_def example_enough_space os_MkdirAll_def example_calls
  example_bulk_dir bulk_step_def example_bulk_name example_paths DownloadToFile_def
  os_WriteFile_def os_Create_def os_Open_def example_category example_bases example_fs_def
  Let_def

lemma example_batch_archive:
  "fst (BulkDownloadAndZip example_os example_fs example_uuid (Some \<lparr>maxSize = 100\<rparr>)
         example_batch ''docs'' 100 50)
     = Inr (''/tmp/bulk_01020304-0506-0708-090a-0b0c0d0e0f10/docs.zip'',
            ''/tmp/bulk_01020304-0506-0708-090a-0b0c0d0e0f10'')"
  "files (snd (BulkDownloadAndZip example_os example_fs example_uuid (Some \<lparr>maxSize = 100\<rparr>)
                example_batch ''docs'' 100 50))
       ''/tmp/bulk_01020304-0506-0708-090a-0b0c0d0e0f10/docs.zip''
     = Some (Archive [(''a.txt'', ''u1''), (''a_1.txt'', ''u2''), (''file_2'', ''u3'')])"
  by (simp_all add: example_batch_def bulk_eval)

lemma example_crossing_archive:
  "fst (BulkDownloadAndZip example_os example_fs example_uuid (Some \<lparr>maxSize = 100\<rparr>)
         example_crossing ''docs'' 100 50)
     = Inr (''/tmp/bulk_01020304-0506-0708-090a-0b0c0d0e0f10/docs.zip'',
            ''/tmp/bulk_01020304-0506-0708-090a-0b0c0d0e0f10'')"
  "files (snd (BulkDownloadAndZip example_os example_fs example_uuid (Some \<lparr>maxSize = 100\<rparr>)
                example_crossing ''docs'' 100 50))
       ''/tmp/bulk_01020304-0506-0708-090a-0b0c0d0e0f10/docs.zip''
     = Some (Archive [(''a_1.txt'', ''u1''), (''a.txt'', ''u2''), (''a_2.txt'', ''u3'')])"
  by (simp_all add: example_crossing_def bulk_eval)

lemma ex_conj_first_second_last:
  "\<exists>x. A x \<and> B x \<and> C x \<and> D x \<Longrightarrow> \<exists>x. A x \<and> B x \<and> D x"
  by blast

subsection \<open>Claims about the names of a batch\<close>

text \<open>
  C4, as the code has it. When \<open>BulkDownloadAndZip\<close> succeeds, the archive at the returned
  path has as many entries as the batch has items, entry \<open>k\<close> being the one of item \<open>k\<close>.
  The name of an entry is none of the names of the entries before it. It is the desired
  name of its item when no earlier entry has that name; otherwise it is the desired name
  with a counter put before the extension, and the counter is the smallest of 1, 2, \<dots>
  whose name no earlier entry has. When no desired name of the batch is the
  counter form of a desired name of the batch, these are the names in the words of the
  spec: the first item with a name keeps it, the later ones get \<open>name_1.ext\<close>,
  \<open>name_2.ext\<close>, \<dots> in the order of the input.
\<close>

theorem BulkDownloadAndZip_entries_follow_input_with_counters:
  assumes "BulkDownloadAndZip env disk u yandex items categoryName maxArchiveBytes minFreeBytes
             = (Inr (zipPath, dir), disk')"
  shows "\<exists>entries. files disk' zipPath = Some (Archive entries)
           \<and> length entries = length items
           \<and> (\<forall>k < length items.
                 let b = desired items ! k;
                     earlier = set (take k (map fst entries));
                     n = fst (entries ! k)
                 in n \<notin> earlier
                    \<and> (b \<notin> earlier \<longrightarrow> n = b)
                    \<and> (b \<in> earlier \<longrightarrow>
                         (\<exists>c \<ge> 1. n = with_counter b c
                            \<and> (\<forall>c'. 1 \<le> c' \<and> c' < c \<longrightarrow> with_counter b c' \<in> earlier))))
           \<and> ((\<forall>i < length items. \<forall>j < length items. \<forall>c \<ge> 1.
                   desired items ! i \<noteq> with_counter (desired items ! j) c)
                \<longrightarrow> map fst entries = spec_names (desired items))"
proof -
  from BulkDownloadAndZip_names [OF assms] obtain entries where
    f: "files disk' zipPath = Some (Archive entries)"
    and l: "length entries = length items"
    and x: "\<forall>k < length items.
              map fst entries ! k = bulk_name (rev (take k (map fst entries))) k (items ! k)"
    by blast
  define ns where "ns = map fst entries"
  define bs where "bs = desired items"
  have ln: "length ns = length bs" by (simp add: ns_def bs_def l desired_length)
  have lb: "length bs = length items" by (simp add: bs_def desired_length)
  have step: "ns ! k \<notin> set (take k ns)
        \<and> ((bs ! k \<notin> set (take k ns) \<and> ns ! k = bs ! k)
           \<or> (bs ! k \<in> set (take k ns)
               \<and> (\<exists>c > 0. ns ! k = with_counter (bs ! k) c
                     \<and> (\<forall>c'. 0 < c' \<and> c' < c \<longrightarrow>
                           with_counter (bs ! k) c' \<in> set (take k ns)))))"
    if "k < length bs" for k
  proof -
    from that lb have k: "k < length items" by simp
    with x have n: "ns ! k = bulk_name (rev (take k ns)) k (items ! k)" by (simp add: ns_def)
    from k have b: "bs ! k = bulk_base k (items ! k)" by (simp add: bs_def desired_nth)
    from bulk_name_cases [of "rev (take k ns)" k "items ! k"] show ?thesis
      unfolding n b with_counter_def set_rev by simp
  qed
  have one: "let b = desired items ! k;
                 earlier = set (take k (map fst entries));
                 n = fst (entries ! k)
             in n \<notin> earlier
                \<and> (b \<notin> earlier \<longrightarrow> n = b)
                \<and> (b \<in> earlier \<longrightarrow>
                     (\<exists>c \<ge> 1. n = with_counter b c
                        \<and> (\<forall>c'. 1 \<le> c' \<and> c' < c \<longrightarrow> with_counter b c' \<in> earlier)))"
    if "k < length items" for k
  proof -
    from that l have n: "fst (entries ! k) = ns ! k" by (simp add: ns_def)
    from that lb have kb: "k < length bs" by simp
    have i: "(1 \<le> c) = (0 < c)" for c :: int by auto
    from step [OF kb] show ?thesis
      unfolding Let_def n ns_def [symmetric] bs_def [symmetric] i by blast
  qed
  have two: "map fst entries = spec_names (desired items)"
    if apart: "\<forall>i < length items. \<forall>j < length items. \<forall>c \<ge> 1.
                   desired items ! i \<noteq> with_counter (desired items ! j) c"
  proof -
    have p: "CHR ''/'' \<notin> set (bs ! i)" if "i < length bs" for i
      using that lb by (simp add: bs_def desired_nth bulk_base_no_slash)
    have a: "bs ! i \<noteq> with_counter (bs ! j) c"
      if "i < length bs" "j < length bs" "1 \<le> c" for i j c
      using that apart lb by (simp add: bs_def)
    have "ns ! k = spec_names bs ! k" if "k < length ns" for k
    proof -
      from that ln have k: "k < length bs" by simp
      from names_follow_counters [of ns bs, OF ln p step a k] show ?thesis
        using k by (simp add: spec_names_nth)
    qed
    then have "ns = spec_names bs"
      using ln by (intro nth_equalityI) (simp_all add: spec_names_length)
    then show ?thesis by (simp add: ns_def bs_def)
  qed
  from f l one two show ?thesis by blast
qed

theorem BulkDownloadAndZip_entries_follow_input_with_counters_witness:
  "\<exists>entries.
     files (snd (BulkDownloadAndZip example_os example_fs example_uuid (Some \<lparr>maxSize = 100\<rparr>)
                   example_batch ''docs'' 100 50))
       ''/tmp/bulk_01020304-0506-0708-090a-0b0c0d0e0f10/docs.zip'' = Some (Archive entries)
     \<and> length entries = 3
     \<and> map fst entries = [''a.txt'', ''a_1.txt'', ''file_2'']"
proof -
  let ?r = "BulkDownloadAndZip example_os example_fs example_uuid (Some \<lparr>maxSize = 100\<rparr>)
              example_batch ''docs'' 100 50"
  have r: "?r = (Inr (''/tmp/bulk_01020304-0506-0708-090a-0b0c0d0e0f10/docs.zip'',
                      ''/tmp/bulk_01020304-0506-0708-090a-0b0c0d0e0f10''), snd ?r)"
    using example_batch_archive(1) by (metis prod.collapse)
  have d: "set (desired example_batch) = {''a.txt'', ''file_2''}"
    by (simp add: example_desired)
  have ne: "x \<noteq> with_counter b c"
    if "x \<in> set (desired example_batch)" "b \<in> set (desired example_batch)" for x b c
    using that unfolding d by (auto simp: example_with_counter)
  have apart: "\<forall>i < length example_batch. \<forall>j < length example_batch. \<forall>c \<ge> 1.
      desired example_batch ! i \<noteq> with_counter (desired example_batch ! j) c"
  proof (intro allI impI)
    fix i j :: nat and c :: int
    assume "i < length example_batch" and "j < length example_batch"
    then have "desired example_batch ! i \<in> set (desired example_batch)"
      and "desired example_batch ! j \<in> set (desired example_batch)"
      by (simp_all add: desired_length)
    then show "desired example_batch ! i \<noteq> with_counter (desired example_batch ! j) c"
      by (rule ne)
  qed
  from ex_conj_first_second_last
      [OF BulkDownloadAndZip_entries_follow_input_with_counters [OF r]]
  have "\<exists>entries.
      files (snd ?r) ''/tmp/bulk_01020304-0506-0708-090a-0b0c0d0e0f10/docs.zip''
          = Some (Archive entries)
      \<and> length entries = length example_batch
      \<and> ((\<forall>i < length example_batch. \<forall>j < length example_batch. \<forall>c \<ge> 1.
               desired example_batch ! i \<noteq> with_counter (desired example_batch ! j) c)
            \<longrightarrow> map fst entries = spec_names (desired example_batch))"
    .
  then obtain entries where
    f: "files (snd ?r) ''/tmp/bulk_01020304-0506-0708-090a-0b0c0d0e0f10/docs.zip''
          = Some (Archive entries)"
    and l: "length entries = length example_batch"
    and n: "(\<forall>i < length example_batch. \<forall>j < length example_batch. \<forall>c \<ge> 1.
               desired example_batch ! i \<noteq> with_counter (desired example_batch ! j) c)
            \<longrightarrow> map fst entries = spec_names (desired example_batch)"
    by (elim exE conjE)
  from n apart have "map fst entries = spec_names (desired example_batch)" by (rule mp)
  then have m: "map fst entries = [''a.txt'', ''a_1.txt'', ''file_2'']"
    by (simp only: example_desired example_spec_names)
  from l have l3: "length entries = 3" by (simp add: example_batch_def)
  from f l3 m show ?thesis by (intro exI conjI)
qed

text \<open>
  C4 as stated fails when a desired name meets a counter form. In the batch \<open>a_1.txt\<close>,
  \<open>a.txt\<close>, \<open>a.txt\<close> the second \<open>a.txt\<close> finds both \<open>a.txt\<close> and \<open>a_1.txt\<close> in use and is
  named \<open>a_2.txt\<close>, where the claim has \<open>a_1.txt\<close>.
\<close>

theorem BulkDownloadAndZip_occurrence_counters_counterexample:
  "fst (BulkDownloadAndZip example_os example_fs example_uuid (Some \<lparr>maxSize = 100\<rparr>)
         [\<lparr>URL = ''u1'', Filename = ''a_1.txt''\<rparr>, \<lparr>URL = ''u2'', Filename = ''a.txt''\<rparr>,
          \<lparr>URL = ''u3'', Filename = ''a.txt''\<rparr>] ''docs'' 100 50)
     = Inr (''/tmp/bulk_01020304-0506-0708-090a-0b0c0d0e0f10/docs.zip'',
            ''/tmp/bulk_01020304-0506-0708-090a-0b0c0d0e0f10'')
   \<and> files (snd (BulkDownloadAndZip example_os example_fs example_uuid
                    (Some \<lparr>maxSize = 100\<rparr>)
                    [\<lparr>URL = ''u1'', Filename = ''a_1.txt''\<rparr>,
                     \<lparr>URL = ''u2'', Filename = ''a.txt''\<rparr>,
                     \<lparr>URL = ''u3'', Filename = ''a.txt''\<rparr>] ''docs'' 100 50))
       ''/tmp/bulk_01020304-0506-0708-090a-0b0c0d0e0f10/docs.zip''
     = Some (Archive [(''a_1.txt'', ''u1''), (''a.txt'', ''u2''), (''a_2.txt'', ''u3'')])
   \<and> spec_names (desired [\<lparr>URL = ''u1'', Filename = ''a_1.txt''\<rparr>,
                            \<lparr>URL = ''u2'', Filename = ''a.txt''\<rparr>,
                            \<lparr>URL = ''u3'', Filename = ''a.txt''\<rparr>])
     = [''a_1.txt'', ''a.txt'', ''a_1.txt'']"
  using example_crossing_archive example_desired(2) example_spec_names(2)
  by (simp add: example_crossing_def)

text \<open>
  C9. An item whose sanitized name is empty gets the fallback name \<open>file_\<close> followed by
  its zero-based index: that name, with no extension, is what goes into the collision
  loop, and it is the name of the item whenever it is not in use. The invariant of the
  item loop, \<open>bulk_inv\<close>, says that the names in use are pairwise distinct, that none is
  empty, and that they are the names of the files written into the workspace, in order.
  It holds when the loop starts, and every iteration that completes keeps it. So when
  \<open>BulkDownloadAndZip\<close> succeeds, the entry names of the archive are pairwise distinct
  and none is empty.
\<close>

theorem bulk_names_fallback_distinct_nonempty:
  "(sanitizeBulkFilename (Filename it) = [] \<longrightarrow>
      bulk_base i it = ''file_'' @ Itoa (int i)
      \<and> bulk_name taken i it
          = unique_name taken (''file_'' @ Itoa (int i)) [] (''file_'' @ Itoa (int i)) 0
      \<and> (''file_'' @ Itoa (int i) \<notin> set taken \<longrightarrow>
           bulk_name taken i it = ''file_'' @ Itoa (int i)))
   \<and> (os_MkdirAll env disk (bulk_dir env u) = (None, disk1) \<longrightarrow>
        bulk_inv (bulk_dir env u) \<lparr>used = [], writtenPaths = [], total = 0, on_disk = disk1\<rparr>)
   \<and> (bulk_inv (bulk_dir env u) st
        \<and> bulk_step env y (bulk_dir env u) maxArchiveBytes i it st = Inr st'
      \<longrightarrow> bulk_inv (bulk_dir env u) st')
   \<and> (BulkDownloadAndZip env disk u yandex items categoryName maxArchiveBytes minFreeBytes
         = (Inr (zipPath, dir), disk')
      \<longrightarrow> (\<exists>entries. files disk' zipPath = Some (Archive entries)
             \<and> distinct (map fst entries) \<and> [] \<notin> set (map fst entries)))"
proof (intro conjI impI)
  assume e: "sanitizeBulkFilename (Filename it) = []"
  then show b: "bulk_base i it = ''file_'' @ Itoa (int i)"
    by (simp add: bulk_base_def)
  from b show "bulk_name taken i it
          = unique_name taken (''file_'' @ Itoa (int i)) [] (''file_'' @ Itoa (int i)) 0"
    unfolding bulk_name_def Let_def b fallback_Ext by (simp add: TrimSuffix_def HasSuffix_def)
  assume "''file_'' @ Itoa (int i) \<notin> set taken"
  with b bulk_name_cases [of taken i it] show "bulk_name taken i it = ''file_'' @ Itoa (int i)"
    by simp
next
  assume "os_MkdirAll env disk (bulk_dir env u) = (None, disk1)"
  then show "bulk_inv (bulk_dir env u)
      \<lparr>used = [], writtenPaths = [], total = 0, on_disk = disk1\<rparr>"
    by (auto simp: os_MkdirAll_def bulk_inv_def split: option.splits)
next
  assume "bulk_inv (bulk_dir env u) st
        \<and> bulk_step env y (bulk_dir env u) maxArchiveBytes i it st = Inr st'"
  then show "bulk_inv (bulk_dir env u) st'"
    using bulk_step_inv by blast
next
  assume "BulkDownloadAndZip env disk u yandex items categoryName maxArchiveBytes minFreeBytes
         = (Inr (zipPath, dir), disk')"
  from BulkDownloadAndZip_names [OF this]
  show "\<exists>entries. files disk' zipPath = Some (Archive entries)
             \<and> distinct (map fst entries) \<and> [] \<notin> set (map fst entries)"
    by blast
qed

theorem bulk_names_fallback_distinct_nonempty_witness:
  "bulk_name [''a_1.txt'', ''a.txt''] 2 \<lparr>URL = ''u3'', Filename = []\<rparr> = ''file_2''
   \<and> bulk_inv (bulk_dir example_os example_uuid)
        \<lparr>used = [], writtenPaths = [], total = 0,
         on_disk = snd (os_MkdirAll example_os example_fs (bulk_dir example_os example_uuid))\<rparr>
   \<and> (\<exists>st'. bulk_step example_os \<lparr>maxSize = 100\<rparr> (bulk_dir example_os example_uuid) 100 0
               \<lparr>URL = ''u1'', Filename = ''a.txt''\<rparr>
               \<lparr>used = [], writtenPaths = [], total = 0,
                on_disk = snd (os_MkdirAll example_os example_fs
                                 (bulk_dir example_os example_uuid))\<rparr> = Inr st'
            \<and> used st' = [''a.txt''] \<and> bulk_inv (bulk_dir example_os example_uuid) st')
   \<and> (\<exists>entries.
         files (snd (BulkDownloadAndZip example_os example_fs example_uuid
                       (Some \<lparr>maxSize = 100\<rparr>) example_batch ''docs'' 100 50))
           ''/tmp/bulk_01020304-0506-0708-090a-0b0c0d0e0f10/docs.zip'' = Some (Archive entries)
         \<and> distinct (map fst entries) \<and> [] \<notin> set (map fst entries))"
proof -
  let ?d = "bulk_dir example_os example_uuid"
  let ?m = "os_MkdirAll example_os example_fs ?d"
  let ?st0 = "\<lparr>used = [], writtenPaths = [], total = 0, on_disk = snd ?m\<rparr>"
  let ?it = "\<lparr>URL = ''u1'', Filename = ''a.txt''\<rparr>"
  let ?r = "BulkDownloadAndZip example_os example_fs example_uuid (Some \<lparr>maxSize = 100\<rparr>)
              example_batch ''docs'' 100 50"
  note c9 = bulk_names_fallback_distinct_nonempty
  have e: "sanitizeBulkFilename (Filename \<lparr>URL = ''u3'', Filename = []\<rparr>) = []"
    by (simp add: example_sanitize)
  have t: "''file_'' @ Itoa (int 2) \<notin> set [''a_1.txt'', ''a.txt'']"
    by (simp add: example_Itoa)
  from e t c9 [where it = "\<lparr>URL = ''u3'', Filename = []\<rparr>" and i = 2
                 and taken = "[''a_1.txt'', ''a.txt'']"]
  have "bulk_name [''a_1.txt'', ''a.txt''] 2 \<lparr>URL = ''u3'', Filename = []\<rparr>
          = ''file_'' @ Itoa (int 2)"
    by blast
  then have p1: "bulk_name [''a_1.txt'', ''a.txt''] 2 \<lparr>URL = ''u3'', Filename = []\<rparr> = ''file_2''"
    by (simp add: example_Itoa)
  have "fst ?m = None" by (simp add: os_MkdirAll_def example_calls)
  then have m: "?m = (None, snd ?m)" by (metis prod.collapse)
  from m c9 [where env = example_os and disk = example_fs and u = example_uuid
               and ?disk1.0 = "snd ?m"]
  have p2: "bulk_inv ?d ?st0" by blast
  have "\<exists>st'. bulk_step example_os \<lparr>maxSize = 100\<rparr> ?d 100 0 ?it ?st0 = Inr st'
           \<and> used st' = [''a.txt'']"
    by (simp add: bulk_eval)
  then obtain st' where s: "bulk_step example_os \<lparr>maxSize = 100\<rparr> ?d 100 0 ?it ?st0 = Inr st'"
    and u: "used st' = [''a.txt'']" by blast
  from p2 s c9 [where env = example_os and u = example_uuid and st = ?st0
                  and y = "\<lparr>maxSize = 100\<rparr>" and maxArchiveBytes = 100 and i = 0
                  and it = ?it and st' = st']
  have "bulk_inv ?d st'" by blast
  with s u have p3: "\<exists>st'. bulk_step example_os \<lparr>maxSize = 100\<rparr> ?d 100 0 ?it ?st0 = Inr st'
           \<and> used st' = [''a.txt''] \<and> bulk_inv ?d st'" by blast
  have r: "?r = (Inr (''/tmp/bulk_01020304-0506-0708-090a-0b0c0d0e0f10/docs.zip'',
                      ''/tmp/bulk_01020304-0506-0708-090a-0b0c0d0e0f10''), snd ?r)"
    using example_batch_archive(1) by (metis prod.collapse)
  from r c9 [where env = example_os and disk = example_fs and u = example_uuid
               and yandex = "Some \<lparr>maxSize = 100\<rparr>" and items = example_batch
               and categoryName = "''docs''" and maxArchiveBytes = 100 and minFreeBytes = 50
               and zipPath = "''/tmp/bulk_01020304-0506-0708-090a-0b0c0d0e0f10/docs.zip''"
               and dir = "''/tmp/bulk_01020304-0506-0708-090a-0b0c0d0e0f10''"
               and disk' = "snd ?r"]
  have p4: "\<exists>entries.
         files (snd ?r) ''/tmp/bulk_01020304-0506-0708-090a-0b0c0d0e0f10/docs.zip''
           = Some (Archive entries)
         \<and> distinct (map fst entries) \<and> [] \<notin> set (map fst entries)"
    by blast
  from p1 p2 p3 p4 show ?thesis by blast
qed

end
